theory Spec2Isabelle
  imports Main "HOL-Library.Word" "HOL-Library.Sublist"
begin

unbundle bit_operations_syntax

section \<open>Keystroke buffering (lib/keystroke.c): data model\<close>

text \<open>
  Bytes are \<open>uint8_t\<close>, keystroke values are \<open>uint32_t\<close>. The counter \<open>len\<close> of
  \<open>struct keystroke_state\<close> is a C \<open>unsigned\<close>: a 32-bit word, and \<open>++len\<close> wraps. Where
  the source copies it to an \<open>int\<close> (the local \<open>l\<close> of \<open>keystroke_input\<close>, the parameter
  \<open>len\<close> of \<open>keystroke_put\<close>, the local \<open>len\<close> of \<open>keystroke_steal_csi\<close>) the word is read
  as two's complement (\<open>sint\<close>), and the comparisons and the index that follow are those
  of that integer.

  The constant \<open>keystroke_max_len\<close> is declared in keystroke.h, which is not part of
  the sources at hand: every function that depends on it takes it as its first
  parameter \<open>K\<close>, the value of that \<open>int\<close> constant and the number of elements of the
  arrays \<open>raw\<close> and \<open>buf\<close>.
\<close>

type_synonym u8 = "8 word"
type_synonym u32 = "32 word"

datatype error =
    Zabort          \<comment> \<open>zabort(...): impossible or unknown state or type\<close>
  | AssertFail      \<comment> \<open>assert(...) or passert(...) failed\<close>
  | RawOverrun      \<comment> \<open>a store into \<open>raw\<close> at an index from \<open>keystroke_max_len\<close> on\<close>
  | RawUnderrun     \<comment> \<open>a store into \<open>raw\<close> at a negative index\<close>
  | BufOverrun      \<comment> \<open>a store outside \<open>buf[keystroke_max_len]\<close>\<close>
  | NullDeref       \<comment> \<open>a store through \<open>steal == NULL\<close>\<close>

definition ebind :: "error + 'a \<Rightarrow> ('a \<Rightarrow> error + 'b) \<Rightarrow> error + 'b" where
  "ebind m f = (case m of Inl e \<Rightarrow> Inl e | Inr x \<Rightarrow> f x)"

datatype stream_state =
    kst_null | kst_char | kst_esc | kst_csi | kst_iac_option | kst_iac_sub

datatype keystroke_type = ks_null | ks_char | ks_esc | ks_csi | ks_iac

text \<open>
  Modelled from the spec: the numbering of \<open>enum keystroke_type\<close> (keystroke.h is
  missing). The specification lists the types as null, char, esc, csi, iac and stores
  the type in bits 3..0 of the first byte of a compound record.
\<close>

definition type_code :: "keystroke_type \<Rightarrow> u8" where
  "type_code t = (case t of ks_null \<Rightarrow> 0 | ks_char \<Rightarrow> 1 | ks_esc \<Rightarrow> 2
                    | ks_csi \<Rightarrow> 3 | ks_iac \<Rightarrow> 4)"

definition code_type :: "u8 \<Rightarrow> keystroke_type option" where
  "code_type c = (if c = 0 then Some ks_null else if c = 1 then Some ks_char
                  else if c = 2 then Some ks_esc else if c = 3 then Some ks_csi
                  else if c = 4 then Some ks_iac else None)"

text \<open>
  Modelled from the spec: the flag bits of \<open>enum keystroke_flags\<close> (keystroke.h is
  missing): bit 7 marks a compound record, bit 5 is broken, bit 4 is truncated, bits
  3..0 are the type.
\<close>

definition kf_compound :: u8 where "kf_compound = 0x80"
definition kf_broken :: u8 where "kf_broken = 0x20"
definition kf_truncated :: u8 where "kf_truncated = 0x10"
definition kf_type_mask :: u8 where "kf_type_mask = 0x0F"

text \<open>
  Modelled from the spec: the two sub-values of a null keystroke
  (\<open>enum keystroke_null\<close> of the missing keystroke.h).
\<close>

definition knull_not_eof :: u32 where "knull_not_eof = 0"
definition knull_eof :: u32 where "knull_eof = 1"

text \<open>
  Modelled from the spec: the Telnet bytes IAC, SB and SE (the source takes
  \<open>tn_IAC\<close>, \<open>tn_SB\<close> and \<open>tn_SE\<close> from a header that is missing).
\<close>

definition tn_IAC :: u8 where "tn_IAC = 255"
definition tn_SB :: u8 where "tn_SB = 250"
definition tn_SE :: u8 where "tn_SE = 240"

text \<open>\<open>struct keystroke\<close> (declared in the missing keystroke.h; the fields are those
  the source reads and writes: type, value, flags, len, buf): the event handed to the
  caller. \<open>buf\<close> is an array of \<open>keystroke_max_len\<close> bytes, modelled by its contents
  at each index; every store into it goes through \<open>buf_store\<close>, which checks the
  bound.\<close>

record keystroke =
  stroke_type :: keystroke_type
  stroke_value :: u32
  stroke_flags :: u8
  stroke_len :: nat
  stroke_buf :: "nat \<Rightarrow> u8"

text \<open>\<open>struct keystroke_state\<close> and \<open>struct keystroke_stream\<close>. The field \<open>in\<close> of the
  source is called \<open>in_st\<close> here. The array \<open>raw\<close> is modelled like \<open>buf\<close>; every
  store at an index goes through \<open>raw_store\<close>, which takes the index as an integer.\<close>

record keystroke_state =
  state :: stream_state
  len :: u32
  raw :: "nat \<Rightarrow> u8"

record keystroke_stream =
  fifo :: "u8 list"
  CSI :: u8
  eof_met :: bool
  steal_this :: bool
  iac :: bool
  in_st :: keystroke_state
  pushed_in :: keystroke_state

definition raw_store :: "nat \<Rightarrow> (nat \<Rightarrow> u8) \<Rightarrow> int \<Rightarrow> u8 \<Rightarrow> error + (nat \<Rightarrow> u8)" where
  "raw_store K r i v =
     (if i < 0 then Inl RawUnderrun
      else if i < int K then Inr (r(nat i := v))
      else Inl RawOverrun)"

definition buf_store :: "nat \<Rightarrow> (nat \<Rightarrow> u8) \<Rightarrow> nat \<Rightarrow> u8 \<Rightarrow> error + (nat \<Rightarrow> u8)" where
  "buf_store K b i v = (if i < K then Inr (b(i := v)) else Inl BufOverrun)"

text \<open>
  Modelled from the spec: the byte FIFO of the stream (\<open>vio_fifo_put_byte\<close>,
  \<open>vio_fifo_put\<close> and \<open>vio_fifo_get_byte\<close> of lib/vio_fifo, which is missing). Bytes
  are put at the end and fetched from the front; fetching from an empty FIFO gives no
  byte (\<open>None\<close> for the negative result of \<open>vio_fifo_get_byte\<close>).
\<close>

definition vio_fifo_put_byte :: "u8 list \<Rightarrow> u8 \<Rightarrow> u8 list" where
  "vio_fifo_put_byte f b = f @ [b]"

definition vio_fifo_put :: "u8 list \<Rightarrow> u8 list \<Rightarrow> u8 list" where
  "vio_fifo_put f bs = f @ bs"

definition vio_fifo_get_byte :: "u8 list \<Rightarrow> (u8 \<times> u8 list) option" where
  "vio_fifo_get_byte f = (case f of [] \<Rightarrow> None | b # f' \<Rightarrow> Some (b, f'))"

definition keystroke_stream_new :: "u8 \<Rightarrow> keystroke_stream" where
  "keystroke_stream_new csi_char =
     \<lparr> fifo = [], CSI = (if csi_char \<noteq> 0 then csi_char else 0x1B),
       eof_met = False, steal_this = False, iac = False,
       in_st = \<lparr> state = kst_null, len = 0, raw = (\<lambda>_. 0) \<rparr>,
       pushed_in = \<lparr> state = kst_null, len = 0, raw = (\<lambda>_. 0) \<rparr> \<rparr>"

definition keystroke_stream_empty :: "keystroke_stream \<Rightarrow> bool" where
  "keystroke_stream_empty stream = (fifo stream = [])"

definition keystroke_stream_eof :: "keystroke_stream \<Rightarrow> bool" where
  "keystroke_stream_eof stream = (fifo stream = [] \<and> eof_met stream)"

definition keystroke_stream_set_eof :: "keystroke_stream \<Rightarrow> keystroke_stream" where
  "keystroke_stream_set_eof stream =
     stream\<lparr> fifo := [], eof_met := True, steal_this := False, iac := False,
             in_st := (in_st stream)\<lparr> state := kst_null \<rparr>,
             pushed_in := (pushed_in stream)\<lparr> state := kst_null \<rparr> \<rparr>"

section \<open>Support functions of keystroke\_input\<close>

definition keystroke_set_null :: "keystroke_stream \<Rightarrow> keystroke \<Rightarrow> keystroke" where
  "keystroke_set_null stream stroke =
     stroke\<lparr> stroke_type := ks_null,
             stroke_value := (if eof_met stream then knull_eof else knull_not_eof),
             stroke_flags := 0, stroke_len := 0 \<rparr>"

definition keystroke_add_raw :: "nat \<Rightarrow> keystroke_stream \<Rightarrow> u8 \<Rightarrow> error + keystroke_stream" where
  "keystroke_add_raw K stream u =
     ebind (if unat (len (in_st stream)) < K
            then raw_store K (raw (in_st stream)) (uint (len (in_st stream))) u
            else Inr (raw (in_st stream)))
       (\<lambda>r. Inr (stream\<lparr> in_st := (in_st stream)\<lparr> raw := r, len := len (in_st stream) + 1 \<rparr> \<rparr>))"

text \<open>\<open>keystroke_put\<close>: store first byte, length and bytes. The parameter \<open>len\<close> is an
  \<open>int\<close>; the length byte is its low 8 bits, and the bytes, taken from the array \<open>p\<close>
  (indices \<open>0..<len\<close>), are stored only when it is positive.\<close>

definition keystroke_put ::
  "nat \<Rightarrow> keystroke_stream \<Rightarrow> keystroke_type \<Rightarrow> bool \<Rightarrow> (nat \<Rightarrow> u8) \<Rightarrow> int \<Rightarrow> keystroke_stream" where
  "keystroke_put K stream type broken p n =
     (let n' = (if n > int K then int K else n);
          type' = (if n > int K then type_code type OR kf_truncated else type_code type);
          f1 = vio_fifo_put_byte (fifo stream)
                 (kf_compound OR (if broken then kf_broken else 0) OR type');
          f2 = vio_fifo_put_byte f1 (of_int n');
          f3 = (if n' > 0 then vio_fifo_put f2 (map p [0..<nat n']) else f2)
      in stream\<lparr> fifo := f3 \<rparr>)"

text \<open>The do-while loop of \<open>keystroke_put_char\<close>: the bytes of \<open>u\<close>, most
  significant first, without leading zero bytes.\<close>

function char_bytes :: "u32 \<Rightarrow> u8 list \<Rightarrow> u8 list" where
  "char_bytes u acc =
     (if drop_bit 8 u \<noteq> 0 then char_bytes (drop_bit 8 u) (ucast (u AND 0xFF) # acc)
      else ucast (u AND 0xFF) # acc)"
  by pat_completeness auto
termination
proof (relation "measure (\<lambda>(u, acc). unat u)")
  show "wf (measure (\<lambda>(u, acc). unat u))" by simp
next
  fix u :: u32 and acc :: "u8 list"
  assume nz: "drop_bit 8 u \<noteq> 0"
  have "unat (drop_bit 8 u) = unat u div 2 ^ 8"
    by (simp add: drop_bit_eq_div unat_div)
  moreover have "unat u \<noteq> 0"
    using nz by (auto simp: unat_eq_0)
  ultimately have "unat (drop_bit 8 u) < unat u"
    by simp
  then show "((drop_bit 8 u, ucast (u AND 0xFF) # acc), (u, acc)) \<in> measure (\<lambda>(u, acc). unat u)"
    by simp
qed

declare char_bytes.simps [simp del]

definition keystroke_put_char :: "nat \<Rightarrow> keystroke_stream \<Rightarrow> u32 \<Rightarrow> keystroke_stream" where
  "keystroke_put_char K stream u =
     (if u < 0x80 then stream\<lparr> fifo := vio_fifo_put_byte (fifo stream) (ucast u) \<rparr>
      else (let bs = char_bytes u []
            in keystroke_put K stream ks_char False (\<lambda>i. bs ! i) (int (length bs))))"

definition keystroke_put_esc :: "nat \<Rightarrow> keystroke_stream \<Rightarrow> u8 \<Rightarrow> int \<Rightarrow> keystroke_stream" where
  "keystroke_put_esc K stream u n = keystroke_put K stream ks_esc (n = 0) (\<lambda>_. u) n"

definition keystroke_put_csi :: "nat \<Rightarrow> keystroke_stream \<Rightarrow> u8 \<Rightarrow> keystroke_stream" where
  "keystroke_put_csi K stream u =
     keystroke_put K stream ks_csi (u = 0) (raw (in_st stream)) (sint (len (in_st stream)))"

definition keystroke_put_iac :: "nat \<Rightarrow> keystroke_stream \<Rightarrow> u8 \<Rightarrow> int \<Rightarrow> keystroke_stream" where
  "keystroke_put_iac K stream u n = keystroke_put K stream ks_iac (n = 0) (\<lambda>_. u) n"

definition keystroke_put_iac_long :: "nat \<Rightarrow> keystroke_stream \<Rightarrow> bool \<Rightarrow> keystroke_stream" where
  "keystroke_put_iac_long K stream broken =
     (let s1 = keystroke_put K stream ks_iac broken (raw (in_st stream))
                 (sint (len (in_st stream)))
      in s1\<lparr> in_st := pushed_in s1, pushed_in := (pushed_in s1)\<lparr> state := kst_null \<rparr> \<rparr>)"

definition keystroke_steal_char :: "nat \<Rightarrow> keystroke \<Rightarrow> keystroke_stream \<Rightarrow> u8 \<Rightarrow> error + keystroke" where
  "keystroke_steal_char K steal stream u =
     ebind (buf_store K (stroke_buf steal) 0 u)
       (\<lambda>b. Inr (steal\<lparr> stroke_type := ks_char, stroke_value := ucast u, stroke_flags := 0,
                        stroke_len := 1, stroke_buf := b \<rparr>))"

definition keystroke_steal_esc :: "nat \<Rightarrow> keystroke \<Rightarrow> keystroke_stream \<Rightarrow> u8 \<Rightarrow> error + keystroke" where
  "keystroke_steal_esc K steal stream u =
     ebind (buf_store K (stroke_buf steal) 0 u)
       (\<lambda>b. Inr (steal\<lparr> stroke_type := ks_esc, stroke_value := ucast u, stroke_flags := 0,
                        stroke_len := 1, stroke_buf := b \<rparr>))"

text \<open>\<open>keystroke_steal_csi\<close>: the local \<open>len\<close> is \<open>in.len\<close> as an \<open>int\<close> (it counts the
  terminator). \<open>memcpy\<close> copies \<open>len - 1\<close> bytes of \<open>in.raw\<close> to the front of \<open>buf\<close>; the
  zero byte is stored at index \<open>len\<close>. With \<open>len \<le> 0\<close> the size given to \<open>memcpy\<close> would
  be negative.\<close>

definition keystroke_steal_csi :: "nat \<Rightarrow> keystroke \<Rightarrow> keystroke_stream \<Rightarrow> u8 \<Rightarrow> error + keystroke" where
  "keystroke_steal_csi K steal stream u =
     (let l = sint (len (in_st stream))
      in if \<not> l \<le> int K then Inl AssertFail
         else if l \<le> 0 then Inl BufOverrun
         else (let n = nat l
               in ebind (buf_store K
                           (\<lambda>i. if i < n - 1 then raw (in_st stream) i else stroke_buf steal i) n 0)
                    (\<lambda>b. Inr (steal\<lparr> stroke_type := ks_esc, stroke_value := ucast u,
                                     stroke_flags := 0, stroke_len := n - 1, stroke_buf := b \<rparr>))))"

section \<open>keystroke\_input\<close>

text \<open>
  The body of the \<open>while (ptr < end)\<close> loop for one byte \<open>u\<close>. The local pointer
  \<open>steal\<close> is \<open>Some k\<close> while it points to the caller's keystroke (holding \<open>k\<close>) and
  \<open>None\<close> when it is \<open>NULL\<close>; \<open>out\<close> is what a steal has written to the caller's
  keystroke. The last component of the result is \<open>True\<close> when the byte was put back
  (\<open>--ptr\<close>), so that the next iteration reads it again.
\<close>

type_synonym loop_state = "keystroke_stream \<times> keystroke option \<times> keystroke option"

text \<open>The block \<open>if (stream->iac)\<close>: an IAC has been seen, \<open>u\<close> follows it.\<close>

definition keystroke_byte_iac ::
  "nat \<Rightarrow> keystroke_stream \<Rightarrow> u8 \<Rightarrow> error + (keystroke_stream \<times> bool)" where
  "keystroke_byte_iac K stream0 u =
     (let stream = stream0\<lparr> iac := False \<rparr>
      in case state (in_st stream) of
           kst_iac_sub \<Rightarrow>
             if raw (in_st stream) 0 \<noteq> tn_SB then Inl AssertFail
             else if u \<noteq> tn_SE
               then Inr (keystroke_put_iac_long K (stream\<lparr> iac := True \<rparr>) True, True)
               else Inr (keystroke_put_iac_long K stream False, False)
         | kst_char \<Rightarrow> Inl Zabort
         | kst_iac_option \<Rightarrow> Inl Zabort
         | _ \<Rightarrow>
             if u < tn_SB then Inr (keystroke_put_iac K stream u 1, False)
             else ebind (raw_store K (raw (in_st stream)) 0 u)
                    (\<lambda>r. Inr (stream\<lparr> pushed_in := in_st stream,
                                      in_st := \<lparr> state = kst_iac_option, len = 1, raw = r \<rparr> \<rparr>,
                               False)))"

text \<open>The \<open>switch (stream->in.state)\<close> reached when no IAC is pending.\<close>

definition keystroke_byte_state ::
  "nat \<Rightarrow> keystroke_stream \<Rightarrow> keystroke option \<Rightarrow> keystroke option \<Rightarrow> u8
     \<Rightarrow> error + (loop_state \<times> bool)" where
  "keystroke_byte_state K stream steal out u =
     (case state (in_st stream) of
        kst_null \<Rightarrow>
          (let stream = stream\<lparr> steal_this := (steal \<noteq> None) \<rparr>
           in if u = 0x1B
                then Inr ((stream\<lparr> in_st := (in_st stream)\<lparr> state := kst_esc \<rparr> \<rparr>, steal, out), False)
              else if u = CSI stream
                then Inr ((stream\<lparr> in_st := (in_st stream)\<lparr> len := 0, state := kst_csi \<rparr> \<rparr>,
                           steal, out), False)
              else if \<not> steal_this stream
                then (let s1 = keystroke_put_char K stream (ucast u)
                      in Inr ((s1\<lparr> in_st := (in_st s1)\<lparr> state := kst_null \<rparr> \<rparr>, steal, out), False))
              else (case steal of
                      None \<Rightarrow> Inl NullDeref
                    | Some k \<Rightarrow>
                        ebind (keystroke_steal_char K k stream u)
                          (\<lambda>k'. Inr ((stream\<lparr> steal_this := False,
                                               in_st := (in_st stream)\<lparr> state := kst_null \<rparr> \<rparr>,
                                       None, Some k'), False))))
      | kst_char \<Rightarrow> Inl Zabort
      | kst_esc \<Rightarrow>
          if u = 0x5B
            then Inr ((stream\<lparr> in_st := (in_st stream)\<lparr> len := 0, state := kst_csi \<rparr> \<rparr>,
                       steal, out), False)
          else if \<not> steal_this stream
            then (let s1 = keystroke_put_esc K stream u 1
                  in Inr ((s1\<lparr> in_st := (in_st s1)\<lparr> state := kst_null \<rparr> \<rparr>, steal, out), False))
          else (case steal of
                  None \<Rightarrow> Inl NullDeref
                | Some k \<Rightarrow>
                    ebind (keystroke_steal_esc K k stream u)
                      (\<lambda>k'. Inr ((stream\<lparr> steal_this := False,
                                           in_st := (in_st stream)\<lparr> state := kst_null \<rparr> \<rparr>,
                                   None, Some k'), False)))
      | kst_csi \<Rightarrow>
          if 0x20 \<le> u \<and> u \<le> 0x3F
            then ebind (keystroke_add_raw K stream u) (\<lambda>s1. Inr ((s1, steal, out), False))
          else
            (let duff = (u < 0x40 \<or> u > 0x7F);
                 stream = (if duff then stream\<lparr> iac := (u = tn_IAC) \<rparr> else stream);
                 u' = (if duff then 0 else u);
                 l0 = sint (len (in_st stream));
                 stream = stream\<lparr> in_st := (in_st stream)\<lparr> len := len (in_st stream) + 1 \<rparr> \<rparr>;
                 l = (if l0 \<ge> int K then int K - 1 else l0);
                 ok = (\<not> duff \<and> \<not> l0 \<ge> int K)
             in ebind (raw_store K (raw (in_st stream)) l u')
                  (\<lambda>r. let stream = stream\<lparr> in_st := (in_st stream)\<lparr> raw := r \<rparr> \<rparr>
                        in if \<not> steal_this stream \<or> \<not> ok
                             then (let s1 = keystroke_put_csi K stream u'
                                   in Inr ((s1\<lparr> in_st := (in_st s1)\<lparr> state := kst_null \<rparr> \<rparr>,
                                            steal, out), duff))
                           else (case steal of
                                   None \<Rightarrow> Inl NullDeref
                                 | Some k \<Rightarrow>
                                     ebind (keystroke_steal_csi K k stream u')
                                       (\<lambda>k'. Inr ((stream\<lparr> steal_this := False,
                                                 in_st := (in_st stream)\<lparr> state := kst_null \<rparr> \<rparr>,
                                               None, Some k'), duff)))))
      | kst_iac_option \<Rightarrow>
          if len (in_st stream) \<noteq> 1 then Inl AssertFail
          else ebind (keystroke_add_raw K stream u)
                 (\<lambda>s1. if raw (in_st s1) 0 = tn_SB
                        then Inr ((s1\<lparr> in_st := (in_st s1)\<lparr> state := kst_iac_sub \<rparr> \<rparr>,
                                   steal, out), False)
                        else Inr ((keystroke_put_iac_long K s1 False, steal, out), False))
      | kst_iac_sub \<Rightarrow>
          if raw (in_st stream) 0 \<noteq> tn_SB then Inl AssertFail
          else ebind (keystroke_add_raw K stream u) (\<lambda>s1. Inr ((s1, steal, out), False)))"

definition keystroke_byte ::
  "nat \<Rightarrow> keystroke_stream \<Rightarrow> keystroke option \<Rightarrow> keystroke option \<Rightarrow> u8
     \<Rightarrow> error + (loop_state \<times> bool)" where
  "keystroke_byte K stream steal out u =
     (if u = tn_IAC \<and> state (in_st stream) \<noteq> kst_iac_option \<and> \<not> iac stream
        then Inr ((stream\<lparr> iac := True \<rparr>, steal, out), False)
      else
        (let stream = (if u = tn_IAC \<and> state (in_st stream) \<noteq> kst_iac_option
                       then stream\<lparr> iac := False \<rparr> else stream)
         in if iac stream
              then ebind (keystroke_byte_iac K stream u)
                     (\<lambda>(s1, back). Inr ((s1, steal, out), back))
            else keystroke_byte_state K stream steal out u))"

text \<open>
  A byte is put back only after the state has moved towards \<open>kst_null\<close>; the measure
  \<open>pending\<close> counts how far the stream is from there, over \<open>in\<close> and \<open>pushed_in\<close>.
\<close>

definition state_rank :: "stream_state \<Rightarrow> nat" where
  "state_rank st = (case st of kst_null \<Rightarrow> 0 | kst_iac_option \<Rightarrow> 2 | kst_iac_sub \<Rightarrow> 2 | _ \<Rightarrow> 1)"

definition pending :: "keystroke_stream \<Rightarrow> nat" where
  "pending stream = 3 * state_rank (state (in_st stream)) + state_rank (state (pushed_in stream))"

lemma state_rank_le2: "state_rank st \<le> 2"
  by (cases st) (simp_all add: state_rank_def)

lemma keystroke_put_fields [simp]:
  "in_st (keystroke_put K s t b p n) = in_st s"
  "pushed_in (keystroke_put K s t b p n) = pushed_in s"
  "iac (keystroke_put K s t b p n) = iac s"
  "eof_met (keystroke_put K s t b p n) = eof_met s"
  "steal_this (keystroke_put K s t b p n) = steal_this s"
  "CSI (keystroke_put K s t b p n) = CSI s"
  by (simp_all add: keystroke_put_def Let_def)

lemma pending_put_iac_long:
  "state_rank (state (in_st s)) = 2 \<Longrightarrow> pending (keystroke_put_iac_long K s b) < pending s"
  using state_rank_le2 [of "state (pushed_in s)"]
  by (simp add: keystroke_put_iac_long_def pending_def Let_def state_rank_def)

lemma keystroke_byte_iac_back:
  assumes "keystroke_byte_iac K s u = Inr (s', True)"
  shows "pending s' < pending s"
proof (cases "state (in_st s)")
  case kst_iac_sub
  have r: "state_rank (state (in_st (s\<lparr>iac := True\<rparr>))) = 2"
    using kst_iac_sub by (simp add: state_rank_def)
  have "s' = keystroke_put_iac_long K (s\<lparr>iac := True\<rparr>) True"
    using assms kst_iac_sub
    by (simp add: keystroke_byte_iac_def Let_def split: if_splits)
  with pending_put_iac_long [OF r, of K True] show ?thesis
    by (simp add: pending_def)
qed (use assms in \<open>auto simp: keystroke_byte_iac_def Let_def ebind_def raw_store_def
                     split: if_splits\<close>)

lemma keystroke_add_raw_Inr:
  "keystroke_add_raw K s u = Inr s' \<Longrightarrow>
     state (in_st s') = state (in_st s) \<and> pushed_in s' = pushed_in s \<and>
     len (in_st s') = len (in_st s) + 1 \<and> fifo s' = fifo s \<and> iac s' = iac s \<and>
     eof_met s' = eof_met s \<and> steal_this s' = steal_this s \<and> CSI s' = CSI s"
  by (auto simp: keystroke_add_raw_def ebind_def raw_store_def split: if_splits)

lemma keystroke_byte_state_back:
  assumes "keystroke_byte_state K s steal out u = Inr ((s', steal', out'), True)"
  shows "pending s' < pending s"
proof (cases "state (in_st s)")
  case kst_csi
  then have "state (in_st s') = kst_null \<and> pushed_in s' = pushed_in s"
    using assms
    by (auto simp: keystroke_byte_state_def Let_def ebind_def raw_store_def
          keystroke_put_csi_def keystroke_steal_csi_def buf_store_def
          split: if_splits option.splits sum.splits)
  with kst_csi show ?thesis
    by (simp add: pending_def state_rank_def)
next
  case kst_null
  with assms show ?thesis
    by (auto simp: keystroke_byte_state_def Let_def ebind_def
          split: if_splits option.splits sum.splits)
next
  case kst_esc
  with assms show ?thesis
    by (auto simp: keystroke_byte_state_def Let_def ebind_def
          split: if_splits option.splits sum.splits)
next
  case kst_iac_option
  with assms show ?thesis
    by (auto simp: keystroke_byte_state_def Let_def ebind_def
          split: if_splits option.splits sum.splits)
next
  case kst_iac_sub
  with assms show ?thesis
    by (auto simp: keystroke_byte_state_def Let_def ebind_def
          split: if_splits option.splits sum.splits)
next
  case kst_char
  with assms show ?thesis
    by (simp add: keystroke_byte_state_def)
qed

lemma keystroke_byte_back:
  assumes "keystroke_byte K s steal out u = Inr ((s', steal', out'), True)"
  shows "pending s' < pending s"
proof -
  define s1 where "s1 = (if u = tn_IAC \<and> state (in_st s) \<noteq> kst_iac_option
                         then s\<lparr> iac := False \<rparr> else s)"
  have p1: "pending s1 = pending s"
    by (simp add: s1_def pending_def)
  from assms have
    "(iac s1 \<and> (\<exists>s''. keystroke_byte_iac K s1 u = Inr (s', True))) \<or>
     keystroke_byte_state K s1 steal out u = Inr ((s', steal', out'), True)"
    by (auto simp: keystroke_byte_def Let_def s1_def ebind_def
          split: if_splits sum.splits prod.splits)
  then show ?thesis
    using keystroke_byte_iac_back keystroke_byte_state_back p1 by metis
qed

text \<open>The loop \<open>while (ptr < end)\<close> over the bytes of the chunk.\<close>

function keystroke_input_loop ::
  "nat \<Rightarrow> keystroke_stream \<Rightarrow> keystroke option \<Rightarrow> keystroke option \<Rightarrow> u8 list
     \<Rightarrow> error + loop_state" where
  "keystroke_input_loop K stream steal out [] = Inr (stream, steal, out)"
| "keystroke_input_loop K stream steal out (u # rest) =
     (case keystroke_byte K stream steal out u of
        Inl e \<Rightarrow> Inl e
      | Inr ((stream', steal', out'), back) \<Rightarrow>
          keystroke_input_loop K stream' steal' out' (if back then u # rest else rest))"
  by pat_completeness auto
termination
  apply (relation "measures [\<lambda>(K, s, st, ou, bs). length bs, \<lambda>(K, s, st, ou, bs). pending s]")
   apply simp
  apply (auto dest: keystroke_byte_back)
  done

text \<open>The loop \<open>while (stream->in.state != kst_null)\<close> of the EOF processing.\<close>

function keystroke_eof_flush :: "nat \<Rightarrow> keystroke_stream \<Rightarrow> error + keystroke_stream" where
  "keystroke_eof_flush K stream =
     (case state (in_st stream) of
        kst_null \<Rightarrow> Inr stream
      | kst_esc \<Rightarrow>
          (let s1 = keystroke_put_esc K stream 0 0
           in keystroke_eof_flush K (s1\<lparr> in_st := (in_st s1)\<lparr> state := kst_null \<rparr> \<rparr>))
      | kst_csi \<Rightarrow>
          (let s1 = keystroke_put_csi K stream 0
           in keystroke_eof_flush K (s1\<lparr> in_st := (in_st s1)\<lparr> state := kst_null \<rparr> \<rparr>))
      | kst_iac_option \<Rightarrow> keystroke_eof_flush K (keystroke_put_iac_long K stream True)
      | kst_iac_sub \<Rightarrow> keystroke_eof_flush K (keystroke_put_iac_long K stream True)
      | kst_char \<Rightarrow> Inl Zabort)"
  by pat_completeness auto
termination
  apply (relation "measure (\<lambda>(K, s). pending s)")
      apply simp
     apply (simp add: pending_def state_rank_def keystroke_put_esc_def)
    apply (simp add: pending_def state_rank_def keystroke_put_csi_def)
   apply (simp add: pending_put_iac_long state_rank_def)
  apply (simp add: pending_put_iac_long state_rank_def)
  done

declare keystroke_eof_flush.simps [simp del]

text \<open>The input of a call: the EOF signal (\<open>len == 0\<close> and \<open>ptr == NULL\<close>) or a
  chunk of bytes.\<close>

datatype input = EOF | Bytes "u8 list"

definition keystroke_input ::
  "nat \<Rightarrow> keystroke_stream \<Rightarrow> input \<Rightarrow> keystroke option
     \<Rightarrow> error + (keystroke_stream \<times> keystroke option)" where
  "keystroke_input K stream inp steal =
     ebind (case inp of
              EOF \<Rightarrow>
                (let s1 = stream\<lparr> eof_met := True, steal_this := False \<rparr>;
                     s2 = (if iac s1 \<and> state (in_st s1) = kst_null
                           then keystroke_put_iac K s1 0 0 else s1)
                 in keystroke_eof_flush K s2)
            | Bytes bs \<Rightarrow> Inr stream)
       (\<lambda>s3.
          let s4 = s3\<lparr> steal_this := (if steal = None then False
                                       else state (in_st s3) = kst_null) \<rparr>;
              bs = (if eof_met s4 then [] else (case inp of EOF \<Rightarrow> [] | Bytes bs \<Rightarrow> bs))
          in ebind (keystroke_input_loop K s4 steal None bs)
               (\<lambda>(s5, steal', out).
                  Inr (s5, (case steal' of Some k \<Rightarrow> Some (keystroke_set_null s5 k)
                            | None \<Rightarrow> out))))"

section \<open>keystroke\_get\<close>

text \<open>The loop \<open>while (p < e) *p++ = keystroke_get_byte(stream)\<close>: index \<open>i\<close> is
  \<open>p - stroke->buf\<close>, \<open>e\<close> is \<open>stroke->len\<close>. An empty FIFO fails the \<open>passert\<close> of
  \<open>keystroke_get_byte\<close>.\<close>

function keystroke_get_bytes ::
  "nat \<Rightarrow> u8 list \<Rightarrow> (nat \<Rightarrow> u8) \<Rightarrow> nat \<Rightarrow> nat \<Rightarrow> error + (u8 list \<times> (nat \<Rightarrow> u8))" where
  "keystroke_get_bytes K f b i e =
     (if i < e
        then (case vio_fifo_get_byte f of
                None \<Rightarrow> Inl AssertFail
              | Some (x, f') \<Rightarrow>
                  (case buf_store K b i x of
                     Inl err \<Rightarrow> Inl err
                   | Inr b' \<Rightarrow> keystroke_get_bytes K f' b' (i + 1) e))
      else Inr (f, b))"
  by pat_completeness auto
termination
  by (relation "measure (\<lambda>(K, f, b, i, e). e - i)") auto

declare keystroke_get_bytes.simps [simp del]

text \<open>The loop \<open>while (p < e) stroke->value = (stroke->value << 8) + *p++\<close>.\<close>

function keystroke_char_value :: "(nat \<Rightarrow> u8) \<Rightarrow> u32 \<Rightarrow> nat \<Rightarrow> nat \<Rightarrow> u32" where
  "keystroke_char_value b v i e =
     (if i < e then keystroke_char_value b (push_bit 8 v + ucast (b i)) (i + 1) e else v)"
  by pat_completeness auto
termination
  by (relation "measure (\<lambda>(b, v, i, e). e - i)") auto

declare keystroke_char_value.simps [simp del]

text \<open>\<open>keystroke_get\<close> returns whether the keystroke is not null, the stream and the
  caller's keystroke.\<close>

definition keystroke_get ::
  "nat \<Rightarrow> keystroke_stream \<Rightarrow> keystroke \<Rightarrow> error + (bool \<times> keystroke_stream \<times> keystroke)" where
  "keystroke_get K stream stroke =
     (case vio_fifo_get_byte (fifo stream) of
        None \<Rightarrow> Inr (False, stream, keystroke_set_null stream stroke)
      | Some (b, f1) \<Rightarrow>
          if b AND kf_compound = 0
            then ebind (buf_store K (stroke_buf stroke) 0 b)
                   (\<lambda>bf. Inr (True, stream\<lparr> fifo := f1 \<rparr>,
                              stroke\<lparr> stroke_type := ks_char, stroke_value := ucast b,
                                      stroke_flags := 0, stroke_len := 1, stroke_buf := bf \<rparr>))
          else
            (case vio_fifo_get_byte f1 of
               None \<Rightarrow> Inl AssertFail
             | Some (lb, f2) \<Rightarrow>
                 (let flags = b AND (kf_broken OR kf_truncated);
                      n = unat lb
                  in ebind (keystroke_get_bytes K f2 (stroke_buf stroke) 0 n)
                       (\<lambda>(f3, bf).
                          let s' = stream\<lparr> fifo := f3 \<rparr>;
                              k = stroke\<lparr> stroke_value := 0, stroke_flags := flags,
                                          stroke_len := n, stroke_buf := bf \<rparr>
                          in case code_type (b AND kf_type_mask) of
                               None \<Rightarrow> Inl Zabort
                             | Some ks_null \<Rightarrow> Inl Zabort
                             | Some ks_char \<Rightarrow>
                                 if flags = 0
                                   then if 0 < n \<and> n \<le> 4
                                     then Inr (True, s',
                                            k\<lparr> stroke_type := ks_char,
                                               stroke_value := keystroke_char_value bf 0 0 n \<rparr>)
                                     else Inl AssertFail
                                 else Inr (True, s', k\<lparr> stroke_type := ks_char \<rparr>)
                             | Some ks_esc \<Rightarrow>
                                 if n = 1
                                   then Inr (True, s',
                                          k\<lparr> stroke_type := ks_esc, stroke_value := ucast (bf 0) \<rparr>)
                                 else if n = 0 then Inr (True, s', k\<lparr> stroke_type := ks_esc \<rparr>)
                                 else Inl AssertFail
                             | Some ks_csi \<Rightarrow>
                                 if n \<noteq> 0
                                   then ebind (buf_store K bf (n - 1) 0)
                                     (\<lambda>bf'. Inr (True, s',
                                        k\<lparr> stroke_type := ks_csi,
                                           stroke_value := ucast (bf (n - 1)),
                                           stroke_len := n - 1, stroke_buf := bf' \<rparr>))
                                 else ebind (buf_store K bf 0 0)
                                     (\<lambda>bf'. Inr (True, s',
                                        k\<lparr> stroke_type := ks_csi, stroke_buf := bf' \<rparr>))
                             | Some ks_iac \<Rightarrow>
                                 if n > 0
                                   then Inr (True, s',
                                          k\<lparr> stroke_type := ks_iac, stroke_value := ucast (bf 0) \<rparr>)
                                 else Inr (True, s', k\<lparr> stroke_type := ks_iac \<rparr>)))))"

section \<open>Driving a stream: chunks in, keystrokes out\<close>

text \<open>Feeding a list of inputs, one call of \<open>keystroke_input\<close> each, with no steal.\<close>

fun keystroke_feed :: "nat \<Rightarrow> keystroke_stream \<Rightarrow> input list \<Rightarrow> error + keystroke_stream" where
  "keystroke_feed K stream [] = Inr stream"
| "keystroke_feed K stream (i # rest) =
     ebind (keystroke_input K stream i None) (\<lambda>(s', _). keystroke_feed K s' rest)"

lemma keystroke_get_bytes_length:
  "keystroke_get_bytes K f b i e = Inr (f', b') \<Longrightarrow> length f' \<le> length f"
proof (induction K f b i e rule: keystroke_get_bytes.induct)
  case (1 K f b i e)
  show ?case
  proof (cases "i < e")
    case False
    with "1.prems" show ?thesis by (simp add: keystroke_get_bytes.simps)
  next
    case True
    have unf: "keystroke_get_bytes K f b i e =
        (case vio_fifo_get_byte f of None \<Rightarrow> Inl AssertFail
         | Some (x, f') \<Rightarrow> (case buf_store K b i x of Inl err \<Rightarrow> Inl err
             | Inr b' \<Rightarrow> keystroke_get_bytes K f' b' (i + 1) e))"
      using True by (subst keystroke_get_bytes.simps) simp
    obtain x f1 where g: "vio_fifo_get_byte f = Some (x, f1)"
      using "1.prems" unf by (cases "vio_fifo_get_byte f") auto
    obtain b1 where st: "buf_store K b i x = Inr b1"
      using "1.prems" unf g by (cases "buf_store K b i x") auto
    have r: "keystroke_get_bytes K f1 b1 (i + 1) e = Inr (f', b')"
      using "1.prems" unf g st by simp
    from "1.IH" [OF True g refl st r] have "length f' \<le> length f1" .
    moreover from g have "length f1 < length f"
      by (auto simp: vio_fifo_get_byte_def split: list.splits)
    ultimately show ?thesis by simp
  qed
qed

lemma keystroke_get_shrinks:
  assumes "keystroke_get K s k = Inr (True, s', k')"
  shows "length (fifo s') < length (fifo s)"
proof (cases "fifo s")
  case Nil
  with assms show ?thesis
    by (simp add: keystroke_get_def vio_fifo_get_byte_def)
next
  case (Cons b f1)
  show ?thesis
  proof (cases "b AND kf_compound = 0")
    case True
    with assms Cons show ?thesis
      by (auto simp: keystroke_get_def vio_fifo_get_byte_def ebind_def split: sum.splits)
  next
    case False
    have "\<exists>lb f2 f3 bf. f1 = lb # f2 \<and>
      keystroke_get_bytes K f2 (stroke_buf k) 0 (unat lb) = Inr (f3, bf) \<and> fifo s' = f3"
    proof (cases f1)
      case Nil
      with assms Cons False show ?thesis
        by (simp add: keystroke_get_def vio_fifo_get_byte_def)
    next
      case f1: (Cons lb f2)
      show ?thesis
      proof (cases "keystroke_get_bytes K f2 (stroke_buf k) 0 (unat lb)")
        case (Inl e)
        with assms Cons False f1 show ?thesis
          by (simp add: keystroke_get_def vio_fifo_get_byte_def ebind_def Let_def)
      next
        case (Inr r)
        obtain f3 bf where r: "r = (f3, bf)" by (cases r)
        have "fifo s' = f3"
          using assms Cons False f1 Inr r
          apply (simp add: keystroke_get_def vio_fifo_get_byte_def ebind_def Let_def)
          apply (cases "code_type (b AND kf_type_mask)")
           apply simp
          subgoal for t
            by (cases t) (auto simp: ebind_def split: if_splits sum.splits)
          done
        with f1 Inr r show ?thesis by simp
      qed
    qed
    then obtain lb f2 f3 bf where f1: "f1 = lb # f2"
      and gb: "keystroke_get_bytes K f2 (stroke_buf k) 0 (unat lb) = Inr (f3, bf)"
      and s': "fifo s' = f3" by blast
    from keystroke_get_bytes_length [OF gb] show ?thesis
      by (simp add: Cons f1 s')
  qed
qed

text \<open>Repeated fetch: the keystrokes returned by \<open>keystroke_get\<close>, called with the same
  keystroke structure until it returns a null keystroke.\<close>

function keystroke_get_all ::
  "nat \<Rightarrow> keystroke_stream \<Rightarrow> keystroke \<Rightarrow> error + (keystroke list \<times> keystroke_stream \<times> keystroke)" where
  "keystroke_get_all K stream stroke =
     (case keystroke_get K stream stroke of
        Inl e \<Rightarrow> Inl e
      | Inr (got, s', k') \<Rightarrow>
          if got
            then (case keystroke_get_all K s' k' of
                    Inl e \<Rightarrow> Inl e
                  | Inr (ks, r) \<Rightarrow> Inr (k' # ks, r))
          else Inr ([], s', k'))"
  by pat_completeness auto
termination
  apply (relation "measure (\<lambda>(K, s, k). length (fifo s))")
   apply simp
  apply (auto dest: keystroke_get_shrinks)
  done

declare keystroke_get_all.simps [simp del]

text \<open>The keystrokes a fresh stream yields for a list of inputs, and the notation of
  the scenarios: type, value, flags, len and the first \<open>len\<close> bytes of \<open>buf\<close>.\<close>

definition keystroke_events :: "nat \<Rightarrow> u8 \<Rightarrow> input list \<Rightarrow> keystroke \<Rightarrow> error + keystroke list" where
  "keystroke_events K csi_char ins k0 =
     ebind (keystroke_feed K (keystroke_stream_new csi_char) ins)
       (\<lambda>s. ebind (keystroke_get_all K s k0) (\<lambda>(ks, _). Inr ks))"

definition stroke_view :: "keystroke \<Rightarrow> keystroke_type \<times> u32 \<times> u8 \<times> nat \<times> u8 list" where
  "stroke_view k = (stroke_type k, stroke_value k, stroke_flags k, stroke_len k,
                    map (stroke_buf k) [0..<stroke_len k])"

text \<open>A keystroke structure as a caller may hold it before a call: every byte of
  \<open>buf\<close> is \<open>c\<close>.\<close>

definition stroke_filled :: "u8 \<Rightarrow> keystroke" where
  "stroke_filled c = \<lparr> stroke_type = ks_null, stroke_value = 0, stroke_flags = 0,
                       stroke_len = 0, stroke_buf = (\<lambda>_. c) \<rparr>"

section \<open>Predicates of the development\<close>

text \<open>The bytes of a list of inputs, in order; the EOF signal carries none.\<close>

fun input_bytes :: "input list \<Rightarrow> u8 list" where
  "input_bytes [] = []"
| "input_bytes (EOF # rest) = input_bytes rest"
| "input_bytes (Bytes bs # rest) = bs @ input_bytes rest"

text \<open>What a steal may have written: the local pointer is still set, or the slot holds
  a keystroke without flags that is not an iac.\<close>

definition slot_clean :: "keystroke option \<Rightarrow> keystroke option \<Rightarrow> bool" where
  "slot_clean steal out =
     (steal \<noteq> None \<or> (case out of None \<Rightarrow> False
                         | Some k \<Rightarrow> stroke_flags k = 0 \<and> stroke_type k \<noteq> ks_iac))"

text \<open>
  The encoding of a compound record as the specification words it: the first byte
  carries the compound marker, the broken and truncated flags and the type, the second
  byte is the number of payload bytes, and the payload follows.
\<close>

definition compound_record :: "keystroke_type \<Rightarrow> bool \<Rightarrow> bool \<Rightarrow> u8 list \<Rightarrow> u8 list" where
  "compound_record t broken truncated payload =
     (kf_compound OR (if broken then kf_broken else 0) OR
        (if truncated then kf_truncated else 0) OR type_code t) #
     of_nat (length payload) # payload"

text \<open>
  \<open>fifo_ok K f cs\<close>: the FIFO \<open>f\<close> holds whole records only, and \<open>cs\<close> are the bytes of
  its char records, in order. A record is a byte below 0x80 (a char), or a first byte
  with bit 7 set and a known type other than null, the length, and that many bytes, at
  most \<open>keystroke_max_len\<close>. A compound char record has no flags and one byte; an esc
  record has at most one byte.
\<close>

inductive fifo_ok :: "nat \<Rightarrow> u8 list \<Rightarrow> u8 list \<Rightarrow> bool" for K :: nat where
  fifo_ok_Nil: "fifo_ok K [] []"
| fifo_ok_simple: "b AND kf_compound = 0 \<Longrightarrow> fifo_ok K f cs \<Longrightarrow> fifo_ok K (b # f) (b # cs)"
| fifo_ok_compound:
    "hdr AND kf_compound \<noteq> 0 \<Longrightarrow> code_type (hdr AND kf_type_mask) = Some t \<Longrightarrow>
     t \<noteq> ks_null \<Longrightarrow> unat lb = length payload \<Longrightarrow> length payload \<le> K \<Longrightarrow>
     (t = ks_char \<Longrightarrow> hdr AND (kf_broken OR kf_truncated) = 0 \<and> length payload = 1) \<Longrightarrow>
     (t = ks_esc \<Longrightarrow> length payload \<le> 1) \<Longrightarrow>
     fifo_ok K f cs \<Longrightarrow>
     fifo_ok K (hdr # lb # payload @ f) ((if t = ks_char then payload else []) @ cs)"

text \<open>
  What holds of the descriptors of a stream between the bytes of its input: the state
  \<open>kst_char\<close> does not occur, \<open>pushed_in\<close> holds an interrupted ESC or CSI sequence if
  anything, and a Telnet command in progress has its command byte in \<open>raw[0]\<close>.
\<close>

definition stream_ok :: "keystroke_stream \<Rightarrow> bool" where
  "stream_ok s =
     (state (in_st s) \<noteq> kst_char \<and>
      (state (pushed_in s) = kst_null \<or> state (pushed_in s) = kst_esc \<or>
       state (pushed_in s) = kst_csi) \<and>
      (state (in_st s) = kst_iac_option \<longrightarrow> len (in_st s) = 1 \<and> \<not> iac s) \<and>
      (state (in_st s) = kst_iac_sub \<longrightarrow>
         raw (in_st s) 0 = tn_SB \<and> 0 < unat (len (in_st s))))"

text \<open>
  \<open>len_room n s\<close>: the counters of the stream \<open>s\<close> can take \<open>n\<close> more bytes and still be
  read as a non-negative \<open>int\<close>. The counter of a descriptor is in use in the states
  other than \<open>kst_null\<close> and \<open>kst_esc\<close>; a CSI sequence sets it to zero when it starts.
\<close>

definition len_used :: "keystroke_state \<Rightarrow> bool" where
  "len_used d = (state d \<noteq> kst_null \<and> state d \<noteq> kst_esc)"

definition len_room :: "nat \<Rightarrow> keystroke_stream \<Rightarrow> bool" where
  "len_room n s =
     (n < 2 ^ 31 \<and>
      (len_used (in_st s) \<longrightarrow> unat (len (in_st s)) + n < 2 ^ 31) \<and>
      (len_used (pushed_in s) \<longrightarrow> unat (len (pushed_in s)) + n < 2 ^ 31))"

text \<open>A char keystroke as \<open>keystroke_get\<close> returns it when all is well.\<close>

definition char_well_formed :: "keystroke \<Rightarrow> bool" where
  "char_well_formed e =
     (stroke_flags e = 0 \<and> stroke_len e = 1 \<and> stroke_value e = ucast (stroke_buf e 0))"

text \<open>The char keystrokes of a list of keystrokes, as the bytes in \<open>buf[0]\<close>.\<close>

definition char_bytes_of :: "keystroke list \<Rightarrow> u8 list" where
  "char_bytes_of ks = map (\<lambda>e. stroke_buf e 0) (filter (\<lambda>e. stroke_type e = ks_char) ks)"

section \<open>Evaluation\<close>

text \<open>The equations that evaluate \<open>keystroke_input\<close> and \<open>keystroke_get\<close> on given bytes.\<close>

lemmas input_defs = keystroke_input_def keystroke_byte_def keystroke_byte_iac_def
  keystroke_byte_state_def keystroke_add_raw_def keystroke_put_def keystroke_put_char_def
  keystroke_put_esc_def keystroke_put_csi_def keystroke_put_iac_def keystroke_put_iac_long_def
  raw_store_def buf_store_def ebind_def Let_def vio_fifo_put_byte_def vio_fifo_put_def
  tn_IAC_def tn_SB_def tn_SE_def keystroke_stream_new_def kf_compound_def kf_broken_def
  kf_truncated_def kf_type_mask_def type_code_def

lemmas get_defs = keystroke_get_all.simps keystroke_get_def keystroke_get_bytes.simps
  keystroke_char_value.simps vio_fifo_get_byte_def code_type_def keystroke_set_null_def
  buf_store_def ebind_def Let_def kf_compound_def kf_broken_def kf_truncated_def
  kf_type_mask_def

section \<open>Chunks: what a call leaves to the next one\<close>

lemma keystroke_byte_iac_frame:
  "keystroke_byte_iac K s u = Inr (s', back) \<Longrightarrow>
     eof_met s' = eof_met s \<and> steal_this s' = steal_this s \<and> CSI s' = CSI s"
  by (cases "state (in_st s)")
     (auto simp: keystroke_byte_iac_def Let_def ebind_def raw_store_def keystroke_put_iac_def
        keystroke_put_iac_long_def split: if_splits)

lemma keystroke_byte_state_frame:
  "keystroke_byte_state K s steal out u = Inr ((s', steal', out'), back) \<Longrightarrow>
     eof_met s' = eof_met s \<and> CSI s' = CSI s"
  by (cases "state (in_st s)")
     (auto simp: keystroke_byte_state_def Let_def ebind_def raw_store_def keystroke_put_char_def
        keystroke_put_esc_def keystroke_put_csi_def keystroke_put_iac_long_def
        dest: keystroke_add_raw_Inr split: if_splits option.splits sum.splits)

lemma keystroke_byte_state_no_steal:
  "keystroke_byte_state K s None out u = Inr ((s', steal', out'), back) \<Longrightarrow> \<not> steal_this s \<Longrightarrow>
     steal' = None \<and> out' = out \<and> \<not> steal_this s'"
  by (cases "state (in_st s)")
     (auto simp: keystroke_byte_state_def Let_def ebind_def raw_store_def keystroke_put_char_def
        keystroke_put_esc_def keystroke_put_csi_def keystroke_put_iac_long_def
        dest: keystroke_add_raw_Inr split: if_splits option.splits sum.splits)

lemma keystroke_byte_frame:
  assumes "keystroke_byte K s steal out u = Inr ((s', steal', out'), back)"
  shows "eof_met s' = eof_met s \<and> CSI s' = CSI s"
proof -
  define s1 where "s1 = (if u = tn_IAC \<and> state (in_st s) \<noteq> kst_iac_option
                         then s\<lparr> iac := False \<rparr> else s)"
  have e: "eof_met s1 = eof_met s \<and> CSI s1 = CSI s"
    by (simp add: s1_def)
  from assms consider
      "s' = s\<lparr> iac := True \<rparr>"
    | "\<exists>b. keystroke_byte_iac K s1 u = Inr (s', b)"
    | "keystroke_byte_state K s1 steal out u = Inr ((s', steal', out'), back)"
    by (auto simp: keystroke_byte_def Let_def s1_def ebind_def
          split: if_splits sum.splits prod.splits)
  then show ?thesis
  proof cases
    case 1
    then show ?thesis by simp
  next
    case 2
    then show ?thesis using keystroke_byte_iac_frame e by metis
  next
    case 3
    then show ?thesis using keystroke_byte_state_frame e by metis
  qed
qed

lemma keystroke_byte_no_steal:
  assumes "keystroke_byte K s None out u = Inr ((s', steal', out'), back)" "\<not> steal_this s"
  shows "steal' = None \<and> out' = out \<and> \<not> steal_this s'"
proof -
  define s1 where "s1 = (if u = tn_IAC \<and> state (in_st s) \<noteq> kst_iac_option
                         then s\<lparr> iac := False \<rparr> else s)"
  have e: "\<not> steal_this s1"
    using assms(2) by (simp add: s1_def)
  from assms(1) consider
      "s' = s\<lparr> iac := True \<rparr> \<and> steal' = None \<and> out' = out"
    | "(\<exists>b. keystroke_byte_iac K s1 u = Inr (s', b)) \<and> steal' = None \<and> out' = out"
    | "keystroke_byte_state K s1 None out u = Inr ((s', steal', out'), back)"
    by (auto simp: keystroke_byte_def Let_def s1_def ebind_def
          split: if_splits sum.splits prod.splits)
  then show ?thesis
  proof cases
    case 1
    then show ?thesis using assms(2) by simp
  next
    case 2
    then show ?thesis using keystroke_byte_iac_frame e by metis
  next
    case 3
    then show ?thesis using keystroke_byte_state_no_steal e by metis
  qed
qed

lemma keystroke_input_loop_append:
  "keystroke_input_loop K s steal out (a @ b) =
     (case keystroke_input_loop K s steal out a of
        Inl e \<Rightarrow> Inl e
      | Inr (s', steal', out') \<Rightarrow> keystroke_input_loop K s' steal' out' b)"
proof (induction K s steal out a rule: keystroke_input_loop.induct)
  case (1 K stream steal out)
  show ?case by simp
next
  case (2 K stream steal out u rest)
  show ?case
  proof (cases "keystroke_byte K stream steal out u")
    case (Inl e)
    then show ?thesis by simp
  next
    case (Inr r)
    obtain s' st' o' bk where r: "r = ((s', st', o'), bk)"
      by (metis prod.exhaust)
    show ?thesis
      using "2.IH" [OF Inr r [symmetric] refl refl] Inr r by (cases bk) simp_all
  qed
qed

lemma keystroke_input_loop_frame:
  "keystroke_input_loop K s steal out bs = Inr (s', steal', out') \<Longrightarrow>
     eof_met s' = eof_met s \<and> CSI s' = CSI s"
proof (induction K s steal out bs arbitrary: s' steal' out' rule: keystroke_input_loop.induct)
  case (1 K stream steal out)
  then show ?case by simp
next
  case (2 K stream steal out u rest)
  from "2.prems" obtain s1 st1 o1 bk where
    b: "keystroke_byte K stream steal out u = Inr ((s1, st1, o1), bk)"
    and l: "keystroke_input_loop K s1 st1 o1 (if bk then u # rest else rest) = Inr (s', steal', out')"
    by (auto split: sum.splits)
  from "2.IH" [OF b refl refl refl l] keystroke_byte_frame [OF b] show ?case
    by simp
qed

lemma keystroke_input_loop_no_steal:
  "keystroke_input_loop K s None out bs = Inr (s', steal', out') \<Longrightarrow> \<not> steal_this s \<Longrightarrow>
     steal' = None \<and> out' = out \<and> \<not> steal_this s'"
proof (induction K s "None :: keystroke option" out bs arbitrary: s' steal' out'
         rule: keystroke_input_loop.induct)
  case (1 K stream out)
  then show ?case by simp
next
  case (2 K stream out u rest)
  from "2.prems" obtain s1 st1 o1 bk where
    b: "keystroke_byte K stream None out u = Inr ((s1, st1, o1), bk)"
    and l: "keystroke_input_loop K s1 st1 o1 (if bk then u # rest else rest) = Inr (s', steal', out')"
    by (auto split: sum.splits)
  from keystroke_byte_no_steal [OF b "2.prems"(2)]
  have n: "st1 = None" "o1 = out" "\<not> steal_this s1" by simp_all
  from b n have b': "keystroke_byte K stream None out u = Inr ((s1, None, out), bk)"
    by simp
  from l n have l': "keystroke_input_loop K s1 None out (if bk then u # rest else rest)
      = Inr (s', steal', out')"
    by simp
  from "2.hyps" [OF b' refl refl refl l' n(3)] show ?case .
qed

lemma keystroke_input_Bytes_None:
  "keystroke_input K s (Bytes bs) None =
     (case keystroke_input_loop K (s\<lparr> steal_this := False \<rparr>) None None
             (if eof_met s then [] else bs) of
        Inl e \<Rightarrow> Inl e
      | Inr (s', steal', out') \<Rightarrow> Inr (s', None))"
proof (cases "keystroke_input_loop K (s\<lparr> steal_this := False \<rparr>) None None
               (if eof_met s then [] else bs)")
  case (Inl e)
  then show ?thesis
    by (cases "eof_met s") (simp_all add: keystroke_input_def ebind_def Let_def)
next
  case (Inr r)
  obtain s' st' o' where r: "r = (s', st', o')" by (metis prod.exhaust)
  from keystroke_input_loop_no_steal [OF Inr [unfolded r]]
  have "st' = None" "o' = None" by simp_all
  with Inr r show ?thesis
    by (cases "eof_met s") (simp_all add: keystroke_input_def ebind_def Let_def)
qed

lemma keystroke_input_Bytes_append:
  "keystroke_input K s (Bytes (a @ b)) None =
     ebind (keystroke_input K s (Bytes a) None) (\<lambda>(s', _). keystroke_input K s' (Bytes b) None)"
proof (cases "eof_met s")
  case True
  then show ?thesis
    by (simp add: keystroke_input_Bytes_None ebind_def)
next
  case False
  show ?thesis
  proof (cases "keystroke_input_loop K (s\<lparr> steal_this := False \<rparr>) None None a")
    case (Inl e)
    with False show ?thesis
      by (simp add: keystroke_input_Bytes_None ebind_def keystroke_input_loop_append)
  next
    case (Inr r)
    obtain s' st' o' where r: "r = (s', st', o')" by (metis prod.exhaust)
    from keystroke_input_loop_no_steal [OF Inr [unfolded r]]
    have n: "st' = None" "o' = None" "\<not> steal_this s'" by simp_all
    from keystroke_input_loop_frame [OF Inr [unfolded r]] False
    have e: "\<not> eof_met s'" by simp
    from n(3) have "s'\<lparr> steal_this := False \<rparr> = s'" by simp
    then have s': "keystroke_input_loop K (s'\<lparr> steal_this := False \<rparr>) None None b
        = keystroke_input_loop K s' None None b" by simp
    from False Inr r n e s' show ?thesis
      by (simp add: keystroke_input_Bytes_None ebind_def keystroke_input_loop_append)
  qed
qed

lemma keystroke_input_EOF_steal_this:
  "keystroke_input K (s\<lparr> steal_this := b \<rparr>) EOF steal = keystroke_input K s EOF steal"
  by (simp add: keystroke_input_def)

lemma keystroke_feed_chunks:
  "keystroke_feed K s (map Bytes chunks @ [EOF]) = keystroke_feed K s [Bytes (concat chunks), EOF]"
proof (induction chunks arbitrary: s)
  case Nil
  show ?case
    by (simp add: keystroke_input_Bytes_None ebind_def keystroke_input_EOF_steal_this)
next
  case (Cons c cs)
  have "keystroke_feed K s (map Bytes (c # cs) @ [EOF]) =
          ebind (keystroke_input K s (Bytes c) None)
            (\<lambda>(s', _). keystroke_feed K s' [Bytes (concat cs), EOF])"
    by (simp add: Cons.IH)
  also have "\<dots> = keystroke_feed K s [Bytes (c @ concat cs), EOF]"
    by (simp add: keystroke_input_Bytes_append ebind_def split: sum.splits prod.splits)
  finally show ?case by simp
qed

section \<open>Scenarios\<close>

text \<open>
  C1. Feeding 1B 5B 33 to a fresh stream (default CSI) and then signalling EOF yields
  exactly one keystroke, a broken csi. The specification gives it value 0, len 1 and
  the parameter byte 0x33 in \<open>buf\<close>. The EOF branch of \<open>keystroke_input\<close> calls
  \<open>keystroke_put_csi\<close> without planting the zero terminator in \<open>in.raw\<close>, so the record
  put in the FIFO ends with the last parameter byte, and \<open>keystroke_get\<close> takes that
  byte for the terminator: the keystroke has value 0x33, len 0 and \<open>buf[0] = 0\<close>. The
  branch for a byte outside 0x20..0x7F does plant the terminator: after 1B 5B 33 07 the
  broken csi has value 0, len 1 and the parameter byte 0x33 followed by a zero byte.
\<close>

theorem eof_in_csi_takes_last_parameter:
  "1 < K \<Longrightarrow>
   (\<exists>ks. keystroke_events K 0 [Bytes [0x1B, 0x5B, 0x33], EOF] k0 = Inr ks \<and>
      map stroke_view ks = [(ks_csi, 0x33, kf_broken, 0, [])] \<and>
      stroke_buf (ks ! 0) 0 = 0) \<and>
   (\<exists>ks. keystroke_events K 0 [Bytes [0x1B, 0x5B, 0x33, 0x07]] k0 = Inr ks \<and>
      map stroke_view ks = [(ks_csi, 0, kf_broken, 1, [0x33]), (ks_char, 0x07, 0, 1, [0x07])] \<and>
      stroke_buf (ks ! 0) 1 = 0)"
  apply (simp add: keystroke_events_def input_defs keystroke_eof_flush.simps)
  apply (simp add: get_defs stroke_view_def upt_rec)
  done

theorem eof_in_csi_takes_last_parameter_witness:
  "(\<exists>ks. keystroke_events 8 0 [Bytes [0x1B, 0x5B, 0x33], EOF] (stroke_filled 0x41) = Inr ks \<and>
      map stroke_view ks = [(ks_csi, 0x33, kf_broken, 0, [])] \<and>
      stroke_buf (ks ! 0) 0 = 0) \<and>
   (\<exists>ks. keystroke_events 8 0 [Bytes [0x1B, 0x5B, 0x33, 0x07]] (stroke_filled 0x41) = Inr ks \<and>
      map stroke_view ks = [(ks_csi, 0, kf_broken, 1, [0x33]), (ks_char, 0x07, 0, 1, [0x07])] \<and>
      stroke_buf (ks ! 0) 1 = 0)"
  using eof_in_csi_takes_last_parameter [of 8 "stroke_filled 0x41"] by simp

text \<open>
  C4. The input 1B 5B FF FB 01 33 7E (IAC WILL ECHO inside a CSI sequence), fed to a
  fresh stream, yields exactly two keystrokes: first the iac with value 0xFB, flags 0,
  len 2 and bytes FB 01, then the csi with value 0x7E, flags 0, len 1 and the parameter
  byte 33 (followed by a zero byte), as if the IAC bytes were absent.
\<close>

theorem iac_inside_csi:
  "1 < K \<Longrightarrow>
   \<exists>ks. keystroke_events K 0 [Bytes [0x1B, 0x5B, 0xFF, 0xFB, 0x01, 0x33, 0x7E]] k0 = Inr ks \<and>
     map stroke_view ks = [(ks_iac, 0xFB, 0, 2, [0xFB, 0x01]), (ks_csi, 0x7E, 0, 1, [0x33])] \<and>
     stroke_buf (ks ! 1) 1 = 0"
  apply (simp add: keystroke_events_def input_defs)
  apply (simp add: get_defs stroke_view_def upt_rec)
  done

theorem iac_inside_csi_witness:
  "\<exists>ks. keystroke_events 8 0 [Bytes [0x1B, 0x5B, 0xFF, 0xFB, 0x01, 0x33, 0x7E]]
           (stroke_filled 0x41) = Inr ks \<and>
     map stroke_view ks = [(ks_iac, 0xFB, 0, 2, [0xFB, 0x01]), (ks_csi, 0x7E, 0, 1, [0x33])] \<and>
     stroke_buf (ks ! 1) 1 = 0"
  using iac_inside_csi [of 8 "stroke_filled 0x41"] by simp

text \<open>
  C5. The input 41 FF FF 42, fed to a fresh stream, yields exactly three char
  keystrokes with values 0x41, 0xFF and 0x42, each with flags 0 and len 1. The pair
  IAC IAC is the byte 0xFF; it is stored in the FIFO as the compound record 81 01 FF
  and \<open>keystroke_get\<close> gives it the value 0xFF again.
\<close>

theorem iac_iac_is_char_ff:
  "0 < K \<Longrightarrow>
   (\<exists>s. keystroke_feed K (keystroke_stream_new 0) [Bytes [0x41, 0xFF, 0xFF, 0x42]] = Inr s \<and>
        fifo s = [0x41, 0x81, 0x01, 0xFF, 0x42]) \<and>
   (\<exists>ks. keystroke_events K 0 [Bytes [0x41, 0xFF, 0xFF, 0x42]] k0 = Inr ks \<and>
      map stroke_view ks =
        [(ks_char, 0x41, 0, 1, [0x41]), (ks_char, 0xFF, 0, 1, [0xFF]),
         (ks_char, 0x42, 0, 1, [0x42])])"
  apply (simp add: keystroke_events_def input_defs char_bytes.simps)
  apply (simp add: get_defs stroke_view_def upt_rec)
  done

theorem iac_iac_is_char_ff_witness:
  "(\<exists>s. keystroke_feed 8 (keystroke_stream_new 0) [Bytes [0x41, 0xFF, 0xFF, 0x42]] = Inr s \<and>
        fifo s = [0x41, 0x81, 0x01, 0xFF, 0x42]) \<and>
   (\<exists>ks. keystroke_events 8 0 [Bytes [0x41, 0xFF, 0xFF, 0x42]] (stroke_filled 0) = Inr ks \<and>
      map stroke_view ks =
        [(ks_char, 0x41, 0, 1, [0x41]), (ks_char, 0xFF, 0, 1, [0xFF]),
         (ks_char, 0x42, 0, 1, [0x42])])"
  using iac_iac_is_char_ff [of 8 "stroke_filled 0"] by simp

section \<open>The counter \<open>len\<close>\<close>

text \<open>A counter below \<open>2^31\<close> reads the same as an \<open>unsigned\<close> and as an \<open>int\<close>, and
  incrementing it does not wrap.\<close>

lemma uint_len_less: "unat (w :: u32) < n \<Longrightarrow> uint w < int n"
proof -
  assume "unat w < n"
  then have "int (unat w) < int n"
    by (simp only: of_nat_less_iff)
  then show ?thesis by simp
qed

lemma sint_len: "unat (w :: u32) < 2 ^ 31 \<Longrightarrow> sint w = uint w"
proof -
  assume a: "unat w < 2 ^ 31"
  from uint_len_less [OF a] have u: "uint w < 2 ^ 31"
    by simp
  have "- (2 ^ 31) \<le> (0 :: int)" by simp
  also have "0 \<le> uint w" by simp
  finally have "signed_take_bit 31 (uint w) = uint w"
    using u by (rule signed_take_bit_int_eq_self)
  then show ?thesis
    by (simp add: sint_uint)
qed

lemma unat_len_inc_le: "unat (w + 1 :: u32) \<le> unat w + 1"
proof -
  have "unat (w + 1) = (unat w + 1) mod 2 ^ 32"
    using unat_word_ariths(1) [of w 1] by simp
  then show ?thesis
    by (simp only: mod_less_eq_dividend)
qed

lemma unat_len_inc: "unat (w :: u32) + 1 < 2 ^ 32 \<Longrightarrow> unat (w + 1) = unat w + 1"
proof -
  assume a: "unat w + 1 < 2 ^ 32"
  have "unat (w + 1) = (unat w + 1) mod 2 ^ 32"
    using unat_word_ariths(1) [of w 1] by simp
  with a show ?thesis
    by (simp only: mod_less)
qed

lemma unat_len_of_nat: "n < 2 ^ 32 \<Longrightarrow> unat (of_nat n :: u32) = n"
  by (simp add: unat_of_nat)


section \<open>Stores into \<open>in.raw\<close>\<close>

lemma keystroke_add_raw_eq:
  "keystroke_add_raw K s u =
     Inr (s\<lparr> in_st := (in_st s)\<lparr> raw := (if unat (len (in_st s)) < K
                                           then (raw (in_st s))(unat (len (in_st s)) := u)
                                           else raw (in_st s)),
                                  len := len (in_st s) + 1 \<rparr> \<rparr>)"
  using uint_len_less [of "len (in_st s)" K]
  by (simp add: keystroke_add_raw_def ebind_def raw_store_def)

lemma keystroke_add_raw_total: "\<exists>s'. keystroke_add_raw K s u = Inr s'"
  by (simp add: keystroke_add_raw_eq)

text \<open>No store into \<open>raw\<close> is at an index from \<open>keystroke_max_len\<close> on, whatever the
  counters hold.\<close>

lemma keystroke_byte_iac_no_overrun:
  "0 < K \<Longrightarrow> keystroke_byte_iac K s u \<noteq> Inl RawOverrun"
  by (cases "state (in_st s)")
     (auto simp: keystroke_byte_iac_def Let_def ebind_def raw_store_def split: if_splits)

lemma keystroke_byte_state_no_overrun:
  "0 < K \<Longrightarrow> keystroke_byte_state K s steal out u \<noteq> Inl RawOverrun"
  by (cases "state (in_st s)")
     (auto simp: keystroke_byte_state_def Let_def ebind_def raw_store_def keystroke_add_raw_eq
        keystroke_steal_char_def keystroke_steal_esc_def keystroke_steal_csi_def buf_store_def
        split: if_splits option.splits sum.splits)

lemma keystroke_byte_no_overrun:
  assumes "0 < K"
  shows "keystroke_byte K s steal out u \<noteq> Inl RawOverrun"
  using keystroke_byte_iac_no_overrun [OF assms] keystroke_byte_state_no_overrun [OF assms]
  by (auto simp: keystroke_byte_def Let_def ebind_def split: if_splits sum.splits)

lemma keystroke_input_loop_no_overrun:
  "0 < K \<Longrightarrow> keystroke_input_loop K s steal out bs \<noteq> Inl RawOverrun"
proof (induction K s steal out bs rule: keystroke_input_loop.induct)
  case (1 K stream steal out)
  show ?case by simp
next
  case (2 K stream steal out u rest)
  show ?case
  proof (cases "keystroke_byte K stream steal out u")
    case (Inl e)
    with keystroke_byte_no_overrun [OF "2.prems", of stream steal out u] show ?thesis
      by simp
  next
    case (Inr r)
    obtain s' st' o' bk where r: "r = ((s', st', o'), bk)"
      by (metis prod.exhaust)
    from "2.IH" [OF Inr r [symmetric] refl refl "2.prems"] Inr r show ?thesis
      by simp
  qed
qed

lemma keystroke_eof_flush_error:
  "keystroke_eof_flush K s = Inl e \<Longrightarrow> e = Zabort"
proof (induction K s rule: keystroke_eof_flush.induct)
  case (1 K stream)
  from "1.prems" "1.IH" show ?case
    by (subst (asm) keystroke_eof_flush.simps)
       (auto simp: Let_def split: stream_state.splits)
qed

lemma keystroke_input_Inl:
  "keystroke_input K s inp steal = Inl e \<Longrightarrow>
     (\<exists>s'. keystroke_eof_flush K s' = Inl e) \<or>
     (\<exists>s' bs. keystroke_input_loop K s' steal None bs = Inl e)"
  by (cases inp) (auto simp: keystroke_input_def ebind_def Let_def split: sum.splits if_splits)

lemma keystroke_input_no_overrun:
  assumes "0 < K"
  shows "keystroke_input K s inp steal \<noteq> Inl RawOverrun"
  using keystroke_input_Inl [of K s inp steal RawOverrun]
    keystroke_input_loop_no_overrun [OF assms] keystroke_eof_flush_error
  by fastforce

lemma keystroke_feed_no_overrun:
  "0 < K \<Longrightarrow> keystroke_feed K s ins \<noteq> Inl RawOverrun"
proof (induction ins arbitrary: s)
  case Nil
  show ?case by simp
next
  case (Cons i ins)
  show ?case
    using keystroke_input_no_overrun [OF Cons.prems, of s i None] Cons.IH [OF Cons.prems]
    by (auto simp: ebind_def split: sum.splits)
qed


text \<open>While the counters have room, no store into \<open>raw\<close> is at a negative index
  either, and a byte of input uses up room for one byte at most.\<close>

lemma keystroke_put_char_fields [simp]:
  "in_st (keystroke_put_char K s v) = in_st s"
  "pushed_in (keystroke_put_char K s v) = pushed_in s"
  "iac (keystroke_put_char K s v) = iac s"
  "eof_met (keystroke_put_char K s v) = eof_met s"
  "steal_this (keystroke_put_char K s v) = steal_this s"
  "CSI (keystroke_put_char K s v) = CSI s"
  by (simp_all add: keystroke_put_char_def Let_def)

lemma len_room_mono: "len_room n s \<Longrightarrow> m \<le> n \<Longrightarrow> len_room m s"
  by (auto simp: len_room_def)

lemma len_room_sint:
  assumes "len_room n s" "len_used (in_st s)"
  shows "sint (len (in_st s)) = uint (len (in_st s))" "unat (len (in_st s)) + n < 2 ^ 31"
proof -
  from assms show b: "unat (len (in_st s)) + n < 2 ^ 31"
    by (simp add: len_room_def)
  then have "unat (len (in_st s)) < 2 ^ 31" by simp
  then show "sint (len (in_st s)) = uint (len (in_st s))"
    by (rule sint_len)
qed

lemma keystroke_byte_iac_room:
  assumes "keystroke_byte_iac K s u = Inr (s', bk)" "len_room (Suc n) s"
  shows "len_room (if bk then Suc n else n) s'"
  using assms
  by (cases "state (in_st s)")
     (auto simp: keystroke_byte_iac_def Let_def ebind_def raw_store_def keystroke_put_iac_def
        keystroke_put_iac_long_def len_room_def len_used_def split: if_splits)

lemma keystroke_byte_state_room:
  assumes "keystroke_byte_state K s steal out u = Inr ((s', steal', out'), bk)"
    "len_room (Suc n) s"
  shows "len_room (if bk then Suc n else n) s'"
proof (cases "state (in_st s)")
  case kst_null
  with assms show ?thesis
    by (auto simp: keystroke_byte_state_def Let_def ebind_def len_room_def len_used_def
          split: if_splits option.splits sum.splits)
next
  case kst_char
  with assms show ?thesis by (simp add: keystroke_byte_state_def)
next
  case kst_esc
  with assms show ?thesis
    by (auto simp: keystroke_byte_state_def Let_def ebind_def len_room_def len_used_def
          keystroke_put_esc_def split: if_splits option.splits sum.splits)
next
  case kst_csi
  with assms unat_len_inc_le [of "len (in_st s)"] show ?thesis
    by (auto simp: keystroke_byte_state_def Let_def ebind_def len_room_def len_used_def
          keystroke_put_csi_def keystroke_add_raw_eq
          split: if_splits option.splits sum.splits)
next
  case kst_iac_option
  with assms unat_len_inc_le [of "len (in_st s)"] show ?thesis
    by (auto simp: keystroke_byte_state_def Let_def ebind_def len_room_def len_used_def
          keystroke_put_iac_long_def keystroke_add_raw_eq
          split: if_splits option.splits sum.splits)
next
  case kst_iac_sub
  with assms unat_len_inc_le [of "len (in_st s)"] show ?thesis
    by (auto simp: keystroke_byte_state_def Let_def ebind_def len_room_def len_used_def
          keystroke_add_raw_eq split: if_splits option.splits sum.splits)
qed

lemma keystroke_byte_room:
  assumes "keystroke_byte K s steal out u = Inr ((s', steal', out'), bk)" "len_room (Suc n) s"
  shows "len_room (if bk then Suc n else n) s'"
proof -
  define s1 where "s1 = (if u = tn_IAC \<and> state (in_st s) \<noteq> kst_iac_option
                         then s\<lparr> iac := False \<rparr> else s)"
  have r1: "len_room (Suc n) s1"
    using assms(2) by (simp add: s1_def len_room_def)
  from assms(1) consider
      "s' = s\<lparr> iac := True \<rparr> \<and> \<not> bk"
    | "keystroke_byte_iac K s1 u = Inr (s', bk)"
    | "keystroke_byte_state K s1 steal out u = Inr ((s', steal', out'), bk)"
    by (auto simp: keystroke_byte_def Let_def s1_def ebind_def
          split: if_splits sum.splits prod.splits)
  then show ?thesis
  proof cases
    case 1
    with assms(2) show ?thesis by (auto simp: len_room_def)
  next
    case 2
    from keystroke_byte_iac_room [OF 2 r1] show ?thesis .
  next
    case 3
    from keystroke_byte_state_room [OF 3 r1] show ?thesis .
  qed
qed

lemma keystroke_byte_state_no_underrun:
  assumes "0 < K" "len_room (Suc n) s"
  shows "keystroke_byte_state K s steal out u \<noteq> Inl RawUnderrun"
proof (cases "state (in_st s)")
  case kst_csi
  then have "len_used (in_st s)" by (simp add: len_used_def)
  from len_room_sint(1) [OF assms(2) this] have "0 \<le> sint (len (in_st s))"
    by simp
  with kst_csi assms(1) show ?thesis
    by (auto simp: keystroke_byte_state_def Let_def ebind_def raw_store_def keystroke_add_raw_eq
          keystroke_steal_csi_def buf_store_def split: if_splits option.splits sum.splits)
qed (auto simp: keystroke_byte_state_def Let_def ebind_def keystroke_add_raw_eq
       keystroke_steal_char_def keystroke_steal_esc_def buf_store_def
       split: if_splits option.splits sum.splits)

lemma keystroke_byte_iac_no_underrun:
  "keystroke_byte_iac K s u \<noteq> Inl RawUnderrun"
  by (cases "state (in_st s)")
     (auto simp: keystroke_byte_iac_def Let_def ebind_def raw_store_def split: if_splits)

lemma keystroke_byte_no_underrun:
  assumes "0 < K" "len_room (Suc n) s"
  shows "keystroke_byte K s steal out u \<noteq> Inl RawUnderrun"
proof -
  have "len_room (Suc n) (s\<lparr> iac := False \<rparr>)"
    using assms(2) by (simp add: len_room_def)
  from keystroke_byte_state_no_underrun [OF assms(1) this]
    keystroke_byte_state_no_underrun [OF assms] keystroke_byte_iac_no_underrun
  show ?thesis
    by (auto simp: keystroke_byte_def Let_def ebind_def split: if_splits sum.splits)
qed

lemma keystroke_input_loop_room:
  "keystroke_input_loop K s steal out bs = Inr (s', steal', out') \<Longrightarrow>
     len_room (length bs + m) s \<Longrightarrow> len_room m s'"
proof (induction K s steal out bs arbitrary: s' steal' out' rule: keystroke_input_loop.induct)
  case (1 K stream steal out)
  then show ?case by simp
next
  case (2 K stream steal out u rest)
  from "2.prems"(1) obtain s1 st1 o1 bk where
    b: "keystroke_byte K stream steal out u = Inr ((s1, st1, o1), bk)"
    and l: "keystroke_input_loop K s1 st1 o1 (if bk then u # rest else rest) = Inr (s', steal', out')"
    by (auto split: sum.splits)
  from "2.prems"(2) have "len_room (Suc (length rest + m)) stream" by simp
  from keystroke_byte_room [OF b this]
  have "len_room (length (if bk then u # rest else rest) + m) s1"
    by (cases bk) simp_all
  from "2.IH" [OF b refl refl refl l this] show ?case .
qed

lemma keystroke_input_loop_no_underrun:
  "0 < K \<Longrightarrow> len_room (length bs + m) s \<Longrightarrow>
     keystroke_input_loop K s steal out bs \<noteq> Inl RawUnderrun"
proof (induction K s steal out bs rule: keystroke_input_loop.induct)
  case (1 K stream steal out)
  show ?case by simp
next
  case (2 K stream steal out u rest)
  from "2.prems"(2) have r: "len_room (Suc (length rest + m)) stream" by simp
  show ?case
  proof (cases "keystroke_byte K stream steal out u")
    case (Inl e)
    with keystroke_byte_no_underrun [OF "2.prems"(1) r, of steal out u] show ?thesis
      by simp
  next
    case (Inr x)
    obtain s' st' o' bk where x: "x = ((s', st', o'), bk)"
      by (metis prod.exhaust)
    from keystroke_byte_room [OF Inr [unfolded x] r]
    have "len_room (length (if bk then u # rest else rest) + m) s'"
      by (cases bk) simp_all
    from "2.IH" [OF Inr x [symmetric] refl refl "2.prems"(1) this] Inr x show ?thesis
      by simp
  qed
qed

lemma keystroke_eof_flush_room:
  "keystroke_eof_flush K s = Inr s' \<Longrightarrow> len_room m s \<Longrightarrow> len_room m s'"
proof (induction K s rule: keystroke_eof_flush.induct)
  case (1 K stream)
  show ?case
  proof (cases "state (in_st stream)")
    case kst_null
    with "1.prems" show ?thesis by (simp add: keystroke_eof_flush.simps)
  next
    case kst_char
    with "1.prems" show ?thesis by (simp add: keystroke_eof_flush.simps)
  next
    case kst_esc
    define s1 where "s1 = (keystroke_put_esc K stream 0 0)\<lparr> in_st :=
        (in_st (keystroke_put_esc K stream 0 0))\<lparr> state := kst_null \<rparr> \<rparr>"
    have f: "keystroke_eof_flush K s1 = Inr s'"
      using "1.prems"(1) kst_esc by (subst (asm) keystroke_eof_flush.simps) (simp add: Let_def s1_def)
    have "len_room m s1"
      using "1.prems"(2) by (simp add: s1_def len_room_def len_used_def keystroke_put_esc_def)
    from "1.IH"(1) [OF kst_esc refl, folded s1_def, OF f this] show ?thesis .
  next
    case kst_csi
    define s1 where "s1 = (keystroke_put_csi K stream 0)\<lparr> in_st :=
        (in_st (keystroke_put_csi K stream 0))\<lparr> state := kst_null \<rparr> \<rparr>"
    have f: "keystroke_eof_flush K s1 = Inr s'"
      using "1.prems"(1) kst_csi by (subst (asm) keystroke_eof_flush.simps) (simp add: Let_def s1_def)
    have "len_room m s1"
      using "1.prems"(2) by (simp add: s1_def len_room_def len_used_def keystroke_put_csi_def)
    from "1.IH"(2) [OF kst_csi refl, folded s1_def, OF f this] show ?thesis .
  next
    case kst_iac_option
    have f: "keystroke_eof_flush K (keystroke_put_iac_long K stream True) = Inr s'"
      using "1.prems"(1) kst_iac_option by (subst (asm) keystroke_eof_flush.simps) simp
    have "len_room m (keystroke_put_iac_long K stream True)"
      using "1.prems"(2) by (simp add: len_room_def len_used_def keystroke_put_iac_long_def Let_def)
    from "1.IH"(3) [OF kst_iac_option f this] show ?thesis .
  next
    case kst_iac_sub
    have f: "keystroke_eof_flush K (keystroke_put_iac_long K stream True) = Inr s'"
      using "1.prems"(1) kst_iac_sub by (subst (asm) keystroke_eof_flush.simps) simp
    have "len_room m (keystroke_put_iac_long K stream True)"
      using "1.prems"(2) by (simp add: len_room_def len_used_def keystroke_put_iac_long_def Let_def)
    from "1.IH"(4) [OF kst_iac_sub f this] show ?thesis .
  qed
qed


text \<open>A call of \<open>keystroke_input\<close>, for a chunk and for the EOF signal.\<close>

lemma keystroke_input_Bytes:
  "keystroke_input K s (Bytes bs) steal =
     ebind (keystroke_input_loop K (s\<lparr> steal_this := (steal \<noteq> None \<and> state (in_st s) = kst_null) \<rparr>)
              steal None (if eof_met s then [] else bs))
       (\<lambda>(s5, steal', out).
          Inr (s5, (case steal' of Some k \<Rightarrow> Some (keystroke_set_null s5 k) | None \<Rightarrow> out)))"
  by (cases steal) (simp_all add: keystroke_input_def ebind_def Let_def)

lemma keystroke_input_EOF:
  "keystroke_input K s EOF steal =
     ebind (keystroke_eof_flush K
              (if iac s \<and> state (in_st s) = kst_null
               then keystroke_put_iac K (s\<lparr> eof_met := True, steal_this := False \<rparr>) 0 0
               else s\<lparr> eof_met := True, steal_this := False \<rparr>))
       (\<lambda>s3. Inr (s3\<lparr> steal_this := (steal \<noteq> None \<and> state (in_st s3) = kst_null) \<rparr>,
                  (case steal of Some k \<Rightarrow> Some (keystroke_set_null s3 k) | None \<Rightarrow> None)))"
  by (cases steal)
     (auto simp: keystroke_input_def ebind_def Let_def keystroke_set_null_def split: sum.splits)

lemma keystroke_input_room:
  assumes "keystroke_input K s inp steal = Inr (s', r)"
    "len_room (length (input_bytes [inp]) + m) s"
  shows "len_room m s'"
proof (cases inp)
  case (Bytes bs)
  define s4 where "s4 = s\<lparr> steal_this := (steal \<noteq> None \<and> state (in_st s) = kst_null) \<rparr>"
  from assms(1) Bytes obtain st5 o5 where
    l: "keystroke_input_loop K s4 steal None (if eof_met s then [] else bs) = Inr (s', st5, o5)"
    by (auto simp: keystroke_input_Bytes s4_def ebind_def split: sum.splits)
  have "len_room (length bs + m) s4"
    using assms(2) Bytes by (simp add: s4_def len_room_def)
  then have "len_room (length (if eof_met s then [] else bs) + m) s4"
    by (rule len_room_mono) simp
  from keystroke_input_loop_room [OF l this] show ?thesis .
next
  case EOF
  define s2 where "s2 = (if iac s \<and> state (in_st s) = kst_null
               then keystroke_put_iac K (s\<lparr> eof_met := True, steal_this := False \<rparr>) 0 0
               else s\<lparr> eof_met := True, steal_this := False \<rparr>)"
  from assms(1) EOF obtain s3 where
    f: "keystroke_eof_flush K s2 = Inr s3" and
    s': "s' = s3\<lparr> steal_this := (steal \<noteq> None \<and> state (in_st s3) = kst_null) \<rparr>"
    by (auto simp: keystroke_input_EOF s2_def [symmetric] ebind_def split: sum.splits)
  have "len_room m s2"
    using assms(2) EOF by (simp add: s2_def len_room_def keystroke_put_iac_def)
  from keystroke_eof_flush_room [OF f this] show ?thesis
    by (simp add: s' len_room_def)
qed

lemma keystroke_input_no_underrun:
  assumes "0 < K" "len_room (length (input_bytes [inp]) + m) s"
  shows "keystroke_input K s inp steal \<noteq> Inl RawUnderrun"
proof (cases inp)
  case (Bytes bs)
  define s4 where "s4 = s\<lparr> steal_this := (steal \<noteq> None \<and> state (in_st s) = kst_null) \<rparr>"
  have "len_room (length bs + m) s4"
    using assms(2) Bytes by (simp add: s4_def len_room_def)
  then have "len_room (length (if eof_met s then [] else bs) + m) s4"
    by (rule len_room_mono) simp
  from keystroke_input_loop_no_underrun [OF assms(1) this] Bytes show ?thesis
    by (auto simp: keystroke_input_Bytes s4_def ebind_def split: sum.splits)
next
  case EOF
  with keystroke_eof_flush_error show ?thesis
    by (fastforce simp: keystroke_input_EOF ebind_def split: sum.splits)
qed

lemma keystroke_feed_no_underrun:
  "0 < K \<Longrightarrow> len_room (length (input_bytes ins) + m) s \<Longrightarrow>
     keystroke_feed K s ins \<noteq> Inl RawUnderrun"
proof (induction ins arbitrary: s)
  case Nil
  show ?case by simp
next
  case (Cons i ins)
  have e: "length (input_bytes (i # ins)) + m = length (input_bytes [i]) + (length (input_bytes ins) + m)"
    by (cases i) simp_all
  from Cons.prems(2) have r: "len_room (length (input_bytes [i]) + (length (input_bytes ins) + m)) s"
    by (simp only: e)
  show ?case
  proof (cases "keystroke_input K s i None")
    case (Inl err)
    with keystroke_input_no_underrun [OF Cons.prems(1) r, of None] show ?thesis
      by (simp add: ebind_def)
  next
    case (Inr x)
    obtain s1 r1 where x: "x = (s1, r1)" by (cases x)
    from keystroke_input_room [OF Inr [unfolded x] r]
    have "len_room (length (input_bytes ins) + m) s1" .
    from Cons.IH [OF Cons.prems(1) this] Inr x show ?thesis
      by (simp add: ebind_def)
  qed
qed

text \<open>Parameter bytes of a CSI sequence: each one goes through \<open>keystroke_add_raw\<close>.\<close>

lemma keystroke_byte_csi_param:
  assumes "state (in_st s) = kst_csi" "\<not> iac s" "0x20 \<le> u" "u \<le> 0x3F"
  shows "keystroke_byte K s steal out u =
     Inr ((s\<lparr> in_st := (in_st s)\<lparr> raw := (if unat (len (in_st s)) < K
                                             then (raw (in_st s))(unat (len (in_st s)) := u)
                                             else raw (in_st s)),
                                    len := len (in_st s) + 1 \<rparr> \<rparr>, steal, out), False)"
proof -
  from assms(4) have "u \<noteq> tn_IAC"
    by (auto simp: tn_IAC_def)
  with assms show ?thesis
    by (simp add: keystroke_byte_def keystroke_byte_state_def keystroke_add_raw_eq ebind_def)
qed

lemma keystroke_input_loop_csi_len:
  assumes "\<forall>p\<in>set ps. 0x20 \<le> p \<and> p \<le> 0x3F" "state (in_st s) = kst_csi" "\<not> iac s"
  shows "\<exists>s'. keystroke_input_loop K s steal out ps = Inr (s', steal, out) \<and>
     state (in_st s') = kst_csi \<and> \<not> iac s' \<and>
     len (in_st s') = len (in_st s) + of_nat (length ps) \<and>
     fifo s' = fifo s \<and> pushed_in s' = pushed_in s \<and> steal_this s' = steal_this s \<and>
     eof_met s' = eof_met s \<and> CSI s' = CSI s"
  using assms
proof (induction ps arbitrary: s)
  case Nil
  then show ?case by auto
next
  case (Cons p ps)
  define s1 where "s1 = s\<lparr> in_st := (in_st s)\<lparr> raw := (if unat (len (in_st s)) < K
                                             then (raw (in_st s))(unat (len (in_st s)) := p)
                                             else raw (in_st s)),
                                    len := len (in_st s) + 1 \<rparr> \<rparr>"
  have step: "keystroke_byte K s steal out p = Inr ((s1, steal, out), False)"
    unfolding s1_def using Cons.prems by (intro keystroke_byte_csi_param) simp_all
  have s1: "state (in_st s1) = kst_csi" "\<not> iac s1"
    using Cons.prems by (simp_all add: s1_def)
  from Cons.prems have ps: "\<forall>p\<in>set ps. 0x20 \<le> p \<and> p \<le> 0x3F" by simp
  from Cons.IH [OF ps s1] obtain s' where
    l: "keystroke_input_loop K s1 steal out ps = Inr (s', steal, out)" and
    p: "state (in_st s') = kst_csi" "\<not> iac s'"
       "len (in_st s') = len (in_st s1) + of_nat (length ps)"
       "fifo s' = fifo s1" "pushed_in s' = pushed_in s1" "steal_this s' = steal_this s1"
       "eof_met s' = eof_met s1" "CSI s' = CSI s1"
    by blast
  have "keystroke_input_loop K s steal out (p # ps) = Inr (s', steal, out)"
    using step l by simp
  with p show ?case
    by (simp add: s1_def)
qed

lemma keystroke_input_loop_csi_params:
  assumes "\<forall>p\<in>set ps. 0x20 \<le> p \<and> p \<le> 0x3F" "state (in_st s) = kst_csi" "\<not> iac s"
    "unat (len (in_st s)) + length ps < 2 ^ 32"
  shows "\<exists>s'. keystroke_input_loop K s steal out ps = Inr (s', steal, out) \<and>
     state (in_st s') = kst_csi \<and> \<not> iac s' \<and>
     unat (len (in_st s')) = unat (len (in_st s)) + length ps \<and>
     (\<forall>i. raw (in_st s') i =
        (if unat (len (in_st s)) \<le> i \<and> i < unat (len (in_st s)) + length ps \<and> i < K
         then ps ! (i - unat (len (in_st s))) else raw (in_st s) i)) \<and>
     fifo s' = fifo s \<and> pushed_in s' = pushed_in s \<and> steal_this s' = steal_this s \<and>
     eof_met s' = eof_met s \<and> CSI s' = CSI s"
  using assms
proof (induction ps arbitrary: s)
  case Nil
  then show ?case by auto
next
  case (Cons p ps)
  define n where "n = unat (len (in_st s))"
  define s1 where "s1 = s\<lparr> in_st := (in_st s)\<lparr> raw := (if n < K
                                             then (raw (in_st s))(n := p)
                                             else raw (in_st s)),
                                    len := len (in_st s) + 1 \<rparr> \<rparr>"
  have step: "keystroke_byte K s steal out p = Inr ((s1, steal, out), False)"
    unfolding s1_def n_def using Cons.prems by (intro keystroke_byte_csi_param) simp_all
  have s1: "state (in_st s1) = kst_csi" "\<not> iac s1"
    using Cons.prems by (simp_all add: s1_def)
  have n1: "unat (len (in_st s1)) = n + 1"
    using Cons.prems(4) unat_len_inc [of "len (in_st s)"] by (simp add: s1_def n_def)
  with Cons.prems(4) have b1: "unat (len (in_st s1)) + length ps < 2 ^ 32"
    by (simp add: n_def)
  from Cons.prems have ps: "\<forall>p\<in>set ps. 0x20 \<le> p \<and> p \<le> 0x3F" by simp
  from Cons.IH [OF ps s1 b1] obtain s' where
    l: "keystroke_input_loop K s1 steal out ps = Inr (s', steal, out)" and
    p: "state (in_st s') = kst_csi" "\<not> iac s'"
       "unat (len (in_st s')) = unat (len (in_st s1)) + length ps"
       "\<forall>i. raw (in_st s') i =
          (if unat (len (in_st s1)) \<le> i \<and> i < unat (len (in_st s1)) + length ps \<and> i < K
           then ps ! (i - unat (len (in_st s1))) else raw (in_st s1) i)"
       "fifo s' = fifo s1" "pushed_in s' = pushed_in s1" "steal_this s' = steal_this s1"
       "eof_met s' = eof_met s1" "CSI s' = CSI s1"
    by blast
  have "keystroke_input_loop K s steal out (p # ps) = Inr (s', steal, out)"
    using step l by simp
  moreover have "\<forall>i. raw (in_st s') i =
        (if n \<le> i \<and> i < n + length (p # ps) \<and> i < K
         then (p # ps) ! (i - n) else raw (in_st s) i)"
  proof
    fix i
    show "raw (in_st s') i =
        (if n \<le> i \<and> i < n + length (p # ps) \<and> i < K
         then (p # ps) ! (i - n) else raw (in_st s) i)"
      using p(4) [rule_format, of i] unfolding n1
      by (auto simp: s1_def nth_Cons' Suc_diff_le)
  qed
  ultimately show ?case
    using p n1 by (simp add: s1_def n_def [symmetric])
qed

lemma keystroke_input_loop_esc_bracket:
  "keystroke_input_loop K ((keystroke_stream_new c)\<lparr> steal_this := False \<rparr>) None None
      ([0x1B, 0x5B] @ bs) =
   keystroke_input_loop K
      ((keystroke_stream_new c)\<lparr> in_st := \<lparr> state = kst_csi, len = 0, raw = (\<lambda>_. 0) \<rparr> \<rparr>)
      None None bs"
  by (simp add: keystroke_byte_def keystroke_byte_state_def keystroke_stream_new_def tn_IAC_def)


text \<open>What \<open>keystroke_put\<close> puts in the FIFO is the record of the specification, when
  the length it is given is not negative.\<close>

lemma keystroke_put_record:
  assumes "0 \<le> n"
  shows "fifo (keystroke_put K s t b p n) =
     fifo s @ compound_record t b (int K < n) (map p [0..<min K (nat n)])"
proof (cases "int K < n")
  case True
  then have m: "min K (nat n) = K" by simp
  from True show ?thesis
    unfolding m
    by (cases "K = 0")
       (simp_all add: keystroke_put_def compound_record_def Let_def vio_fifo_put_byte_def
          vio_fifo_put_def ac_simps)
next
  case False
  then have m: "min K (nat n) = nat n" by simp
  from False assms show ?thesis
    unfolding m
    by (cases "n = 0")
       (simp_all add: keystroke_put_def compound_record_def Let_def vio_fifo_put_byte_def
          vio_fifo_put_def ac_simps)
qed

text \<open>The byte that ends a CSI sequence which is not stolen: the terminator, or a byte
  outside 0x20..0x7F, which is put back.\<close>

lemma keystroke_byte_state_csi_end:
  assumes "0 < K" "state (in_st s) = kst_csi" "\<not> (0x20 \<le> u \<and> u \<le> 0x3F)"
    "unat (len (in_st s)) + 1 < 2 ^ 31"
    "\<not> steal_this s \<or> u < 0x40 \<or> u > 0x7F \<or> K \<le> unat (len (in_st s))"
  shows "\<exists>s'. keystroke_byte_state K s steal out u = Inr ((s', steal, out), u < 0x40 \<or> u > 0x7F) \<and>
     state (in_st s') = kst_null \<and> len (in_st s') = len (in_st s) + 1 \<and>
     raw (in_st s') =
       (raw (in_st s))((if K \<le> unat (len (in_st s)) then K - 1 else unat (len (in_st s))) :=
                          (if u < 0x40 \<or> u > 0x7F then 0 else u)) \<and>
     fifo s' = fifo s @
       compound_record ks_csi (u < 0x40 \<or> u > 0x7F) (K \<le> unat (len (in_st s)))
         (map (raw (in_st s')) [0..<min K (unat (len (in_st s)) + 1)]) \<and>
     iac s' = (if u < 0x40 \<or> u > 0x7F then u = tn_IAC else iac s) \<and>
     steal_this s' = steal_this s \<and> pushed_in s' = pushed_in s \<and>
     eof_met s' = eof_met s \<and> CSI s' = CSI s"
proof -
  define n where "n = unat (len (in_st s))"
  have n: "n + 1 < 2 ^ 31" using assms(4) by (simp add: n_def)
  then have "unat (len (in_st s)) < 2 ^ 31" by (simp add: n_def)
  from sint_len [OF this] have l0: "sint (len (in_st s)) = int n"
    by (simp only: uint_nat n_def)
  have n1: "unat (len (in_st s) + 1) = n + 1"
    using unat_len_inc [of "len (in_st s)"] n by (simp add: n_def)
  with n have "unat (len (in_st s) + 1) < 2 ^ 31" by simp
  from sint_len [OF this] n1 have l1: "sint (len (in_st s) + 1) = int n + 1"
    by (simp only: uint_nat of_nat_add of_nat_1)
  have u0: "\<not> (u < 0x40 \<or> u > 0x7F) \<Longrightarrow> u \<noteq> 0"
    by auto
  have idx: "nat (if int K \<le> int n then int K - 1 else int n) = (if K \<le> n then K - 1 else n)"
    using assms(1) by auto
  have tr: "(int K < int n + 1) = (K \<le> n)" by auto
  have k1: "nat (int K - 1) = K - Suc 0" by arith
  have mn: "nat (int n + 1) = n + 1" by simp
  have np: "(0x20 \<le> u \<and> u \<le> 0x3F) = False" using assms(3) by simp
  show ?thesis
  proof (cases "u < 0x40 \<or> u > 0x7F")
    case True
    with assms(1,2) show ?thesis
      unfolding n_def [symmetric]
      by (simp add: keystroke_byte_state_def Let_def ebind_def raw_store_def np
            l0 l1 keystroke_put_csi_def keystroke_put_record idx tr mn k1)
  next
    case False
    with assms(1,2,5) u0 show ?thesis
      unfolding n_def [symmetric]
      by (simp add: keystroke_byte_state_def Let_def ebind_def raw_store_def np
            l0 l1 keystroke_put_csi_def keystroke_put_record idx tr mn k1)
  qed
qed


text \<open>
  C7. Whatever the state of the stream, the input and the steal slot of a call of
  \<open>keystroke_input\<close>, and so over any number of calls, no byte is stored at an index
  from \<open>keystroke_max_len\<close> on: every store into \<open>raw\<close> at an index goes through
  \<open>raw_store\<close>, which fails with \<open>RawOverrun\<close> there, and that failure never occurs
  (\<open>pushed_in.raw\<close> is only ever assigned as a whole, from \<open>in\<close>). While the counters
  have room for the bytes of the input below \<open>2^31\<close>, no store is at a negative index
  either. \<open>keystroke_add_raw\<close> always increments \<open>in.len\<close> and writes only when it is
  below \<open>keystroke_max_len\<close>; the terminator of a CSI sequence whose counter has reached
  \<open>keystroke_max_len\<close> is planted at index \<open>keystroke_max_len - 1\<close>. The counter is not
  bounded by \<open>keystroke_max_len\<close>: after ESC [ and \<open>n\<close> parameter bytes it is \<open>n\<close> (as a
  32-bit word), for every \<open>n\<close>.
\<close>

theorem raw_stores_stay_in_bounds:
  assumes "0 < K"
  shows "keystroke_input K s inp steal \<noteq> Inl RawOverrun \<and>
         keystroke_feed K s ins \<noteq> Inl RawOverrun \<and>
         (len_room (length (input_bytes [inp])) s \<longrightarrow>
            keystroke_input K s inp steal \<noteq> Inl RawUnderrun) \<and>
         (len_room (length (input_bytes ins)) s \<longrightarrow>
            keystroke_feed K s ins \<noteq> Inl RawUnderrun) \<and>
         keystroke_add_raw K s u =
           Inr (s\<lparr> in_st := (in_st s)\<lparr> raw := (if unat (len (in_st s)) < K
                                                 then (raw (in_st s))(unat (len (in_st s)) := u)
                                                 else raw (in_st s)),
                                        len := len (in_st s) + 1 \<rparr> \<rparr>) \<and>
         (state (in_st sc) = kst_csi \<and> 0x40 \<le> t \<and> t \<le> 0x7F \<and> \<not> steal_this sc \<and>
            K \<le> unat (len (in_st sc)) \<and> unat (len (in_st sc)) + 1 < 2 ^ 31 \<longrightarrow>
            (\<exists>sc'. keystroke_byte_state K sc steal out t = Inr ((sc', steal, out), False) \<and>
                   raw (in_st sc') = (raw (in_st sc))(K - 1 := t))) \<and>
         (\<exists>s'. keystroke_input K (keystroke_stream_new c) (Bytes ([0x1B, 0x5B] @ replicate n 0x30)) None
                  = Inr (s', None) \<and>
               state (in_st s') = kst_csi \<and> len (in_st s') = of_nat n)"
proof -
  define s0 where
    "s0 = (keystroke_stream_new c)\<lparr> in_st := \<lparr> state = kst_csi, len = 0, raw = (\<lambda>_. 0) \<rparr> \<rparr>"
  have "\<forall>p\<in>set (replicate n (0x30 :: u8)). 0x20 \<le> p \<and> p \<le> 0x3F"
    by simp
  moreover have "state (in_st s0) = kst_csi" "\<not> iac s0"
    by (simp_all add: s0_def keystroke_stream_new_def)
  ultimately obtain s' where
    l: "keystroke_input_loop K s0 None None (replicate n 0x30) = Inr (s', None, None)"
    and p: "state (in_st s') = kst_csi"
      "len (in_st s') = len (in_st s0) + of_nat (length (replicate n (0x30 :: u8)))"
    using keystroke_input_loop_csi_len [of "replicate n 0x30" s0 K None None] by blast
  have "\<not> eof_met (keystroke_stream_new c)"
    by (simp add: keystroke_stream_new_def)
  then have "keystroke_input K (keystroke_stream_new c) (Bytes ([0x1B, 0x5B] @ replicate n 0x30)) None
      = Inr (s', None)"
    using l unfolding s0_def
    by (simp only: keystroke_input_Bytes_None keystroke_input_loop_esc_bracket if_False)
       simp
  moreover have "len (in_st s') = of_nat n"
    using p(2) by (simp add: s0_def)
  ultimately have A: "\<exists>s'. keystroke_input K (keystroke_stream_new c)
        (Bytes ([0x1B, 0x5B] @ replicate n 0x30)) None = Inr (s', None) \<and>
      state (in_st s') = kst_csi \<and> len (in_st s') = of_nat n"
    using p(1) by blast
  have B: "\<exists>sc'. keystroke_byte_state K sc steal out t = Inr ((sc', steal, out), False) \<and>
                   raw (in_st sc') = (raw (in_st sc))(K - 1 := t)"
    if h: "state (in_st sc) = kst_csi" "0x40 \<le> t" "t \<le> 0x7F" "\<not> steal_this sc"
      "K \<le> unat (len (in_st sc))" "unat (len (in_st sc)) + 1 < 2 ^ 31"
  proof -
    from h(2) have n: "\<not> (0x20 \<le> t \<and> t \<le> 0x3F)" "\<not> (t < 0x40 \<or> t > 0x7F)"
      using h(3) by (auto simp: word_le_nat_alt word_less_nat_alt)
    from keystroke_byte_state_csi_end [OF assms h(1) n(1) h(6), of steal out] h(4,5) n(2)
    show ?thesis by auto
  qed
  have C: "keystroke_input K s inp steal \<noteq> Inl RawUnderrun"
    if "len_room (length (input_bytes [inp])) s"
    using keystroke_input_no_underrun [OF assms, of inp 0 s steal] that by simp
  have D: "keystroke_feed K s ins \<noteq> Inl RawUnderrun"
    if "len_room (length (input_bytes ins)) s"
    using keystroke_feed_no_underrun [OF assms, of ins 0 s] that by simp
  from A B C D keystroke_input_no_overrun [OF assms, of s inp steal]
    keystroke_feed_no_overrun [OF assms, of s ins] keystroke_add_raw_eq [of K s u]
  show ?thesis
    by (intro conjI impI) (simp_all only:, blast+)
qed


theorem raw_stores_stay_in_bounds_witness:
  "(0 :: nat) < 8 \<and>
   keystroke_input 8 (keystroke_stream_new 0)
      (Bytes ([0x1B, 0x5B] @ replicate 10 0x30 @ [0x7E])) (Some (stroke_filled 0)) \<noteq> Inl RawOverrun \<and>
   keystroke_feed 8 (keystroke_stream_new 0)
      [Bytes ([0x1B, 0x5B] @ replicate 10 0x30), Bytes [0x7E], EOF] \<noteq> Inl RawOverrun \<and>
   len_room (length (input_bytes [Bytes ([0x1B, 0x5B] @ replicate 10 0x30 @ [0x7E])]))
      (keystroke_stream_new 0) \<and>
   keystroke_input 8 (keystroke_stream_new 0)
      (Bytes ([0x1B, 0x5B] @ replicate 10 0x30 @ [0x7E])) (Some (stroke_filled 0)) \<noteq> Inl RawUnderrun \<and>
   len_room (length (input_bytes [Bytes ([0x1B, 0x5B] @ replicate 10 0x30), Bytes [0x7E], EOF]))
      (keystroke_stream_new 0) \<and>
   keystroke_feed 8 (keystroke_stream_new 0)
      [Bytes ([0x1B, 0x5B] @ replicate 10 0x30), Bytes [0x7E], EOF] \<noteq> Inl RawUnderrun \<and>
   (\<exists>s'. keystroke_add_raw 8 (keystroke_stream_new 0) 0x31 = Inr s' \<and>
         len (in_st s') = 1 \<and> raw (in_st s') 0 = 0x31) \<and>
   (\<exists>sc'. keystroke_byte_state 8
             ((keystroke_stream_new 0)\<lparr> in_st := \<lparr> state = kst_csi, len = 9, raw = (\<lambda>_. 0x30) \<rparr> \<rparr>)
             (Some (stroke_filled 0)) None 0x7E = Inr ((sc', Some (stroke_filled 0), None), False) \<and>
          raw (in_st sc') = (\<lambda>_. 0x30)(7 := 0x7E)) \<and>
   (\<exists>s'. keystroke_input 8 (keystroke_stream_new 0) (Bytes ([0x1B, 0x5B] @ replicate 10 0x30)) None
            = Inr (s', None) \<and>
         state (in_st s') = kst_csi \<and> len (in_st s') = 10)"
  using raw_stores_stay_in_bounds [where K = 8 and s = "keystroke_stream_new 0"
      and inp = "Bytes ([0x1B, 0x5B] @ replicate 10 0x30 @ [0x7E])"
      and steal = "Some (stroke_filled 0)"
      and ins = "[Bytes ([0x1B, 0x5B] @ replicate 10 0x30), Bytes [0x7E], EOF]" and u = "0x31"
      and sc = "(keystroke_stream_new 0)\<lparr> in_st := \<lparr> state = kst_csi, len = 9, raw = (\<lambda>_. 0x30) \<rparr> \<rparr>"
      and t = "0x7E" and out = None and c = 0 and n = 10]
  by (simp add: len_room_def len_used_def keystroke_stream_new_def)

section \<open>Stealing a CSI sequence\<close>

lemma keystroke_input_loop_esc_bracket_steal:
  "keystroke_input_loop K ((keystroke_stream_new c)\<lparr> steal_this := True \<rparr>) (Some k) None
      ([0x1B, 0x5B] @ bs) =
   keystroke_input_loop K
      ((keystroke_stream_new c)\<lparr> steal_this := True,
           in_st := \<lparr> state = kst_csi, len = 0, raw = (\<lambda>_. 0) \<rparr> \<rparr>)
      (Some k) None bs"
  by (simp add: keystroke_byte_def keystroke_byte_state_def keystroke_stream_new_def tn_IAC_def)

lemma keystroke_byte_csi_final_steal:
  assumes "state (in_st s) = kst_csi" "\<not> iac s" "steal_this s" "0x40 \<le> t" "t \<le> 0x7F"
    "unat (len (in_st s)) + 1 \<le> K" "K < 2 ^ 31"
  shows "if unat (len (in_st s)) + 1 < K
         then \<exists>s' k'. keystroke_byte K s (Some k) out t = Inr ((s', None, Some k'), False) \<and>
                fifo s' = fifo s \<and> state (in_st s') = kst_null \<and>
                stroke_type k' = ks_esc \<and> stroke_value k' = ucast t \<and> stroke_flags k' = 0 \<and>
                stroke_len k' = unat (len (in_st s)) \<and>
                (\<forall>j < unat (len (in_st s)). stroke_buf k' j = raw (in_st s) j) \<and>
                stroke_buf k' (unat (len (in_st s))) = stroke_buf k (unat (len (in_st s))) \<and>
                stroke_buf k' (unat (len (in_st s)) + 1) = 0
         else keystroke_byte K s (Some k) out t = Inl BufOverrun"
proof -
  define n where "n = unat (len (in_st s))"
  have n: "n + 1 < 2 ^ 31" "n + 1 \<le> K" using assms(6,7) by (simp_all add: n_def)
  then have "unat (len (in_st s)) < 2 ^ 31" by (simp add: n_def)
  from sint_len [OF this] have l0: "sint (len (in_st s)) = int n"
    by (simp only: uint_nat n_def)
  have n1: "unat (len (in_st s) + 1) = n + 1"
    using unat_len_inc [of "len (in_st s)"] n by (simp add: n_def)
  with n have "unat (len (in_st s) + 1) < 2 ^ 31" by simp
  from sint_len [OF this] n1 have l1: "sint (len (in_st s) + 1) = int n + 1"
    by (simp only: uint_nat of_nat_add of_nat_1)
  have mn: "nat (int n + 1) = n + 1" "nat (int n) = n" by simp_all
  from assms(5) have "t \<noteq> tn_IAC"
    by (auto simp: tn_IAC_def)
  moreover from assms(4) have "\<not> t \<le> 0x3F" "\<not> t < 0x40"
    by (auto simp: word_le_nat_alt word_less_nat_alt)
  moreover from assms(5) have "\<not> 0x7F < t"
    by (auto simp: word_le_nat_alt word_less_nat_alt)
  ultimately show ?thesis
    using assms(1-3) n(2)
    unfolding n_def [symmetric]
    by (auto simp: keystroke_byte_def keystroke_byte_state_def Let_def ebind_def raw_store_def
          keystroke_steal_csi_def buf_store_def l0 l1 mn)
qed


text \<open>
  C2. A CSI sequence ESC [ \<open>ps\<close> \<open>t\<close> that completes well formed and not truncated while
  the steal is armed is written to the steal slot with type esc, value \<open>t\<close>, no flags,
  len \<open>length ps\<close> (\<open>in.len - 1\<close>) and the parameter bytes at the front of \<open>buf\<close>. The
  specification puts a zero byte right after them, at \<open>buf[len]\<close>. \<open>keystroke_steal_csi\<close>
  stores it at \<open>buf[in.len]\<close>, one place further: \<open>buf[len]\<close> keeps what the caller's
  structure held before the call, and when \<open>in.len\<close> is \<open>keystroke_max_len\<close> the store
  is outside \<open>buf\<close>. (\<open>keystroke_max_len\<close> is an \<open>int\<close> constant, hence below \<open>2^31\<close>.)
\<close>

theorem steal_csi_zero_byte_one_too_far:
  assumes "\<forall>p\<in>set ps. 0x20 \<le> p \<and> p \<le> 0x3F" "0x40 \<le> t" "t \<le> 0x7F" "length ps + 1 \<le> K"
    "K < 2 ^ 31"
  shows "if length ps + 1 < K
         then \<exists>s k'. keystroke_input K (keystroke_stream_new c) (Bytes ([0x1B, 0x5B] @ ps @ [t]))
                        (Some k) = Inr (s, Some k') \<and>
                fifo s = [] \<and>
                stroke_type k' = ks_esc \<and> stroke_value k' = ucast t \<and> stroke_flags k' = 0 \<and>
                stroke_len k' = length ps \<and>
                (\<forall>j < length ps. stroke_buf k' j = ps ! j) \<and>
                stroke_buf k' (length ps) = stroke_buf k (length ps) \<and>
                stroke_buf k' (length ps + 1) = 0
         else keystroke_input K (keystroke_stream_new c) (Bytes ([0x1B, 0x5B] @ ps @ [t]))
                (Some k) = Inl BufOverrun"
proof -
  define s0 where
    "s0 = (keystroke_stream_new c)\<lparr> steal_this := True,
             in_st := \<lparr> state = kst_csi, len = 0, raw = (\<lambda>_. 0) \<rparr> \<rparr>"
  have s0: "state (in_st s0) = kst_csi" "\<not> iac s0" "unat (len (in_st s0)) = 0" "fifo s0 = []"
    "steal_this s0"
    by (simp_all add: s0_def keystroke_stream_new_def)
  have b0: "unat (len (in_st s0)) + length ps < 2 ^ 32"
    using assms(4,5) s0(3) by simp
  from keystroke_input_loop_csi_params [OF assms(1) s0(1,2) b0, of K "Some k" None] s0
  obtain s1 where
    l1: "keystroke_input_loop K s0 (Some k) None ps = Inr (s1, Some k, None)" and
    s1: "state (in_st s1) = kst_csi" "\<not> iac s1" "unat (len (in_st s1)) = length ps"
        "fifo s1 = []" "steal_this s1" and
    r1: "\<forall>i. raw (in_st s1) i = (if i < length ps \<and> i < K then ps ! i else raw (in_st s0) i)"
    by auto
  have "keystroke_input K (keystroke_stream_new c) (Bytes ([0x1B, 0x5B] @ ps @ [t])) (Some k) =
      ebind (keystroke_input_loop K s0 (Some k) None (ps @ [t]))
        (\<lambda>(s5, steal', out).
          Inr (s5, (case steal' of Some k \<Rightarrow> Some (keystroke_set_null s5 k) | None \<Rightarrow> out)))"
    unfolding s0_def keystroke_input_loop_esc_bracket_steal [symmetric]
    by (simp add: keystroke_input_def keystroke_stream_new_def ebind_def Let_def)
  also have "keystroke_input_loop K s0 (Some k) None (ps @ [t]) =
      keystroke_input_loop K s1 (Some k) None [t]"
    using l1 by (simp add: keystroke_input_loop_append)
  finally have inp:
    "keystroke_input K (keystroke_stream_new c) (Bytes ([0x1B, 0x5B] @ ps @ [t])) (Some k) =
      ebind (keystroke_input_loop K s1 (Some k) None [t])
        (\<lambda>(s5, steal', out).
          Inr (s5, (case steal' of Some k \<Rightarrow> Some (keystroke_set_null s5 k) | None \<Rightarrow> out)))" .
  note fin = keystroke_byte_csi_final_steal [OF s1(1,2,5) assms(2,3) _ assms(5), of k None,
      unfolded s1(3), OF assms(4)]
  show ?thesis
  proof (cases "length ps + 1 < K")
    case True
    with fin obtain s2 k' where
      b2: "keystroke_byte K s1 (Some k) None t = Inr ((s2, None, Some k'), False)" and
      p2: "fifo s2 = fifo s1" "stroke_type k' = ks_esc" "stroke_value k' = ucast t"
        "stroke_flags k' = 0" "stroke_len k' = length ps"
        "\<forall>j < length ps. stroke_buf k' j = raw (in_st s1) j"
        "stroke_buf k' (length ps) = stroke_buf k (length ps)"
        "stroke_buf k' (length ps + 1) = 0"
      by (simp only: if_True) blast
    from b2 have "keystroke_input K (keystroke_stream_new c) (Bytes ([0x1B, 0x5B] @ ps @ [t]))
        (Some k) = Inr (s2, Some k')"
      unfolding inp by (simp add: ebind_def)
    moreover from p2(6) r1 True have "\<forall>j < length ps. stroke_buf k' j = ps ! j"
      by simp
    ultimately have "\<exists>s k'. keystroke_input K (keystroke_stream_new c)
                        (Bytes ([0x1B, 0x5B] @ ps @ [t])) (Some k) = Inr (s, Some k') \<and>
                fifo s = [] \<and>
                stroke_type k' = ks_esc \<and> stroke_value k' = ucast t \<and> stroke_flags k' = 0 \<and>
                stroke_len k' = length ps \<and>
                (\<forall>j < length ps. stroke_buf k' j = ps ! j) \<and>
                stroke_buf k' (length ps) = stroke_buf k (length ps) \<and>
                stroke_buf k' (length ps + 1) = 0"
      using p2 s1(4) by auto
    with True show ?thesis by (simp only: if_True)
  next
    case False
    with fin have "keystroke_byte K s1 (Some k) None t = Inl BufOverrun"
      by (simp only: if_False)
    then have "keystroke_input K (keystroke_stream_new c) (Bytes ([0x1B, 0x5B] @ ps @ [t]))
        (Some k) = Inl BufOverrun"
      unfolding inp by (simp add: ebind_def)
    with False show ?thesis by (simp only: if_False)
  qed
qed

theorem steal_csi_zero_byte_one_too_far_witness:
  "list_all (\<lambda>p. 0x20 \<le> p \<and> p \<le> 0x3F) [0x33 :: u8] \<and> (0x40 :: u8) \<le> 0x7E \<and> (0x7E :: u8) \<le> 0x7F \<and>
   length [0x33 :: u8] + 1 \<le> (8 :: nat) \<and> (8 :: nat) < 2 ^ 31 \<and>
   (\<exists>s k'. keystroke_input 8 (keystroke_stream_new 0) (Bytes [0x1B, 0x5B, 0x33, 0x7E])
              (Some (stroke_filled 0x41)) = Inr (s, Some k') \<and>
      fifo s = [] \<and> stroke_type k' = ks_esc \<and> stroke_value k' = 0x7E \<and> stroke_flags k' = 0 \<and>
      stroke_len k' = 1 \<and> stroke_buf k' 0 = 0x33 \<and> stroke_buf k' 1 = 0x41 \<and>
      stroke_buf k' 2 = 0)"
proof -
  have h: "\<forall>p\<in>set [0x33 :: u8]. 0x20 \<le> p \<and> p \<le> 0x3F" "(0x40 :: u8) \<le> 0x7E"
    "(0x7E :: u8) \<le> 0x7F" "length [0x33 :: u8] + 1 \<le> (8 :: nat)" "(8 :: nat) < 2 ^ 31"
    by simp_all
  have c: "length [0x33 :: u8] + 1 < (8 :: nat)" by simp
  have n: "length [0x33 :: u8] = 1" "length [0x33 :: u8] + 1 = 2" by simp_all
  from steal_csi_zero_byte_one_too_far [OF h, of 0 "stroke_filled 0x41", unfolded if_P [OF c]]
  obtain s k' where
    a: "keystroke_input 8 (keystroke_stream_new 0) (Bytes ([0x1B, 0x5B] @ [0x33] @ [0x7E]))
              (Some (stroke_filled 0x41)) = Inr (s, Some k')"
    and p: "fifo s = []" "stroke_type k' = ks_esc" "stroke_value k' = ucast (0x7E :: u8)"
      "stroke_flags k' = 0" "stroke_len k' = length [0x33 :: u8]"
      "\<forall>j < length [0x33 :: u8]. stroke_buf k' j = [0x33 :: u8] ! j"
      "stroke_buf k' (length [0x33 :: u8]) = stroke_buf (stroke_filled 0x41) (length [0x33 :: u8])"
      "stroke_buf k' (length [0x33 :: u8] + 1) = 0"
    by blast
  from a have a': "keystroke_input 8 (keystroke_stream_new 0) (Bytes [0x1B, 0x5B, 0x33, 0x7E])
              (Some (stroke_filled 0x41)) = Inr (s, Some k')"
    by simp
  from p(3) have v: "stroke_value k' = 0x7E" by simp
  from p(5) have l: "stroke_len k' = 1" by simp
  from p(6) have b0: "stroke_buf k' 0 = 0x33" by simp
  from p(7) have b1: "stroke_buf k' 1 = 0x41" unfolding n(1) by (simp add: stroke_filled_def)
  from p(8) have b2: "stroke_buf k' 2 = 0" unfolding n(2) .
  from a' p(1,2,4) v l b0 b1 b2
  have "\<exists>s k'. keystroke_input 8 (keystroke_stream_new 0) (Bytes [0x1B, 0x5B, 0x33, 0x7E])
              (Some (stroke_filled 0x41)) = Inr (s, Some k') \<and>
      fifo s = [] \<and> stroke_type k' = ks_esc \<and> stroke_value k' = 0x7E \<and> stroke_flags k' = 0 \<and>
      stroke_len k' = 1 \<and> stroke_buf k' 0 = 0x33 \<and> stroke_buf k' 1 = 0x41 \<and>
      stroke_buf k' 2 = 0"
    by blast
  with h show ?thesis by (simp add: list_all_iff)
qed

section \<open>The records in the FIFO\<close>

text \<open>Bytes as 32-bit character values, as \<open>keystroke_put_char\<close> receives them.\<close>

lemma unat_ucast_u8: "unat (ucast (u::u8) :: u32) = unat u"
proof -
  have "unat u < 2 ^ 8" using unsigned_less [of u] by simp
  then have "unat u < 2 ^ 32" by simp
  then show ?thesis
    by (simp add: unsigned_ucast_eq take_bit_nat_eq_self)
qed

lemma ucast_u8_less: "((ucast (u::u8) :: u32) < 0x80) = (u < 0x80)"
  by (simp add: word_less_nat_alt unat_ucast_u8)

lemma ucast_ucast_u8: "ucast (ucast (u::u8) :: u32) = u"
  by (simp add: ucast_up_ucast_id is_up)

lemma u8_less_0x80: "u < 0x80 \<Longrightarrow> u AND 0x80 = (0::u8)"
proof -
  assume "u < 0x80"
  then have "unat u < 2 ^ 7" by (simp add: word_less_nat_alt)
  then have "\<not> bit (unat u) 7"
    by (simp add: bit_iff_odd)
  then have "\<not> bit u 7" by (simp add: bit_unsigned_iff)
  then have "u AND 2 ^ 7 = 0"
    by (simp only: and_exp_eq_0_iff_not_bit simp_thms)
  moreover have "(0x80 :: u8) = 2 ^ 7" by simp
  ultimately show ?thesis by (simp only:)
qed

lemma drop_bit_ucast_u8: "drop_bit 8 (ucast (u::u8) :: u32) = 0"
  by (rule bit_word_eqI) (auto simp: bit_simps dest: bit_imp_le_length)

lemma ucast_and_0xFF: "ucast ((ucast (u::u8) :: u32) AND 0xFF) = u"
proof -
  have e: "(0xFF :: u32) = mask 8" by (simp add: mask_eq_exp_minus_1)
  show ?thesis
    unfolding e by (rule bit_word_eqI) (auto simp: bit_simps)
qed

lemma char_bytes_byte: "char_bytes (ucast (u::u8)) [] = [u]"
  by (subst char_bytes.simps) (simp add: drop_bit_ucast_u8 ucast_and_0xFF)

lemma fifo_ok_append: "fifo_ok K f cs \<Longrightarrow> fifo_ok K g ds \<Longrightarrow> fifo_ok K (f @ g) (cs @ ds)"
proof (induction rule: fifo_ok.induct)
  case fifo_ok_Nil
  then show ?case by simp
next
  case (fifo_ok_simple b f cs)
  then show ?case by (simp add: fifo_ok.fifo_ok_simple)
next
  case (fifo_ok_compound hdr t lb payload f cs)
  from fifo_ok.fifo_ok_compound [OF fifo_ok_compound(1-7), of "f @ g" "cs @ ds"] fifo_ok_compound
  show ?case by simp
qed

lemma record_first_byte:
  fixes t :: keystroke_type and b tr :: bool
  assumes "t \<noteq> ks_null"
  defines "hdr \<equiv> kf_compound OR (if b then kf_broken else 0) OR
                    (if tr then kf_truncated else 0) OR type_code t"
  shows "hdr AND kf_compound \<noteq> 0" "code_type (hdr AND kf_type_mask) = Some t"
    "(hdr AND (kf_broken OR kf_truncated) = 0) = (\<not> b \<and> \<not> tr)"
    "hdr AND kf_broken = (if b then kf_broken else 0)"
    "hdr AND kf_truncated = (if tr then kf_truncated else 0)"
    "hdr AND (kf_broken OR kf_truncated) =
       (if b then kf_broken else 0) OR (if tr then kf_truncated else 0)"
  using assms(1)
  by (cases t; cases b; cases tr;
      simp add: hdr_def kf_compound_def kf_broken_def kf_truncated_def kf_type_mask_def
        type_code_def code_type_def)+

lemma compound_record_fifo_ok:
  assumes "K < 256" "t \<noteq> ks_null" "t \<noteq> ks_char" "length payload \<le> K"
    "t = ks_esc \<Longrightarrow> length payload \<le> 1"
  shows "fifo_ok K (compound_record t b tr payload) []"
proof -
  define hdr where "hdr = kf_compound OR (if b then kf_broken else 0) OR
                    (if tr then kf_truncated else 0) OR type_code t"
  from assms(1,4) have lb: "unat (of_nat (length payload) :: u8) = length payload"
    by (simp add: unat_of_nat)
  have "fifo_ok K (hdr # of_nat (length payload) # payload @ [])
          ((if t = ks_char then payload else []) @ [])"
    using record_first_byte(1,2) [OF assms(2), of b tr] assms(3,4,5)
    by (intro fifo_ok_compound [OF _ _ assms(2) lb _ _ _ fifo_ok_Nil])
       (simp_all add: hdr_def)
  with assms(3) show ?thesis
    by (simp add: compound_record_def hdr_def)
qed

lemma keystroke_put_fifo_ok:
  assumes "K < 256" "fifo_ok K (fifo s) cs" "t = ks_esc \<or> t = ks_csi \<or> t = ks_iac" "0 \<le> n"
    "t = ks_esc \<Longrightarrow> n \<le> 1"
  shows "fifo_ok K (fifo (keystroke_put K s t b p n)) cs"
proof -
  have "fifo_ok K (compound_record t b (int K < n) (map p [0..<min K (nat n)])) []"
    using assms(3,5) by (intro compound_record_fifo_ok [OF assms(1)]) auto
  from fifo_ok_append [OF assms(2) this] show ?thesis
    by (simp add: keystroke_put_record [OF assms(4)])
qed

lemma keystroke_put_char_fifo_ok:
  assumes "0 < K" "K < 256" "fifo_ok K (fifo s) cs"
  shows "fifo_ok K (fifo (keystroke_put_char K s (ucast (u :: u8)))) (cs @ [u])"
proof (cases "u < 0x80")
  case True
  then have "fifo (keystroke_put_char K s (ucast u)) = fifo s @ [u]"
    by (simp add: keystroke_put_char_def ucast_u8_less ucast_ucast_u8 vio_fifo_put_byte_def)
  moreover from True have "fifo_ok K [u] [u]"
    by (intro fifo_ok_simple fifo_ok_Nil) (simp add: kf_compound_def u8_less_0x80)
  ultimately show ?thesis
    using fifo_ok_append [OF assms(3)] by simp
next
  case False
  have m: "min K (Suc 0) = Suc 0" using assms(1) by simp
  from False have e: "fifo (keystroke_put_char K s (ucast u)) = fifo s @ compound_record ks_char False False [u]"
    using assms(1)
    by (simp add: keystroke_put_char_def ucast_u8_less char_bytes_byte keystroke_put_record m)
  have r: "compound_record ks_char False False [u] = [0x81, 1, u]"
    by (simp add: compound_record_def kf_compound_def type_code_def)
  have "fifo_ok K ((0x81 :: u8) # 1 # [u] @ []) ((if ks_char = ks_char then [u] else []) @ [])"
    using assms(1)
    by (intro fifo_ok_compound [where t = ks_char] fifo_ok_Nil)
       (simp_all add: kf_compound_def kf_type_mask_def kf_broken_def kf_truncated_def
          code_type_def)
  then have "fifo_ok K (compound_record ks_char False False [u]) [u]"
    by (simp add: r)
  from fifo_ok_append [OF assms(3) this] show ?thesis
    by (simp add: e)
qed


text \<open>A byte of input, with no steal: the call does not fail, the FIFO holds whole
  records afterwards, and the only char record it may have gained is the one of that
  byte, which is then not put back.\<close>

lemma stream_ok_new: "stream_ok (keystroke_stream_new c)"
  by (simp add: stream_ok_def keystroke_stream_new_def)

lemma len_room_new: "n < 2 ^ 31 \<Longrightarrow> len_room n (keystroke_stream_new c)"
  by (simp add: len_room_def len_used_def keystroke_stream_new_def)

lemma keystroke_byte_iac_ok:
  assumes "0 < K" "K < 256" "fifo_ok K (fifo s) cs" "stream_ok s"
    "state (in_st s) \<noteq> kst_iac_option" "len_room n s"
  shows "\<exists>s' bk. keystroke_byte_iac K s u = Inr (s', bk) \<and> fifo_ok K (fifo s') cs \<and>
           stream_ok s' \<and> steal_this s' = steal_this s \<and> eof_met s' = eof_met s"
proof -
  have p: "fifo_ok K (fifo (keystroke_put K s0 ks_iac b r m)) cs"
    if "fifo s0 = fifo s" "0 \<le> m" for s0 b r m
  proof -
    from that(1) assms(3) have "fifo_ok K (fifo s0) cs" by simp
    with assms(2) that(2) show ?thesis by (intro keystroke_put_fifo_ok) simp_all
  qed
  show ?thesis
  proof (cases "state (in_st s)")
    case kst_iac_sub
    then have "len_used (in_st s)" by (simp add: len_used_def)
    from len_room_sint(1) [OF assms(6) this] have "0 \<le> sint (len (in_st s))"
      by simp
    with kst_iac_sub assms(3,4) p show ?thesis
      by (auto simp: keystroke_byte_iac_def Let_def stream_ok_def keystroke_put_iac_long_def)
  next
    case kst_iac_option
    with assms(5) show ?thesis by simp
  next
    case kst_char
    with assms(4) show ?thesis by (simp add: stream_ok_def)
  next
    case kst_null
    with assms(1,3,4) p show ?thesis
      by (auto simp: keystroke_byte_iac_def Let_def ebind_def raw_store_def stream_ok_def
            keystroke_put_iac_def)
  next
    case kst_esc
    with assms(1,3,4) p show ?thesis
      by (auto simp: keystroke_byte_iac_def Let_def ebind_def raw_store_def stream_ok_def
            keystroke_put_iac_def)
  next
    case kst_csi
    with assms(1,3,4) p show ?thesis
      by (auto simp: keystroke_byte_iac_def Let_def ebind_def raw_store_def stream_ok_def
            keystroke_put_iac_def)
  qed
qed

lemma keystroke_byte_state_ok:
  assumes "0 < K" "K < 256" "fifo_ok K (fifo s) cs" "stream_ok s" "\<not> iac s" "\<not> steal_this s"
    "len_room (Suc n) s"
  shows "\<exists>s' bk. keystroke_byte_state K s None out u = Inr ((s', None, out), bk) \<and>
           (fifo_ok K (fifo s') cs \<or> (\<not> bk \<and> fifo_ok K (fifo s') (cs @ [u]))) \<and>
           stream_ok s' \<and> \<not> steal_this s' \<and> eof_met s' = eof_met s"
proof -
  have p: "fifo_ok K (fifo (keystroke_put K s0 t b r m)) cs"
    if "fifo s0 = fifo s" "t = ks_csi \<or> t = ks_iac \<or> (t = ks_esc \<and> m = 1)" "0 \<le> m"
    for s0 t b r m
  proof -
    from that(1) assms(3) have "fifo_ok K (fifo s0) cs" by simp
    with assms(2) that(2,3) show ?thesis by (intro keystroke_put_fifo_ok) auto
  qed
  have c: "fifo_ok K (fifo (keystroke_put_char K s0 (ucast u))) (cs @ [u])" if "fifo s0 = fifo s" for s0
  proof -
    from that assms(3) have "fifo_ok K (fifo s0) cs" by simp
    with assms(1,2) show ?thesis by (intro keystroke_put_char_fifo_ok)
  qed
  show ?thesis
  proof (cases "state (in_st s)")
    case kst_null
    with assms c show ?thesis
      by (auto simp: keystroke_byte_state_def Let_def stream_ok_def)
  next
    case kst_char
    with assms(4) show ?thesis by (simp add: stream_ok_def)
  next
    case kst_esc
    with assms p show ?thesis
      by (auto simp: keystroke_byte_state_def Let_def stream_ok_def keystroke_put_esc_def)
  next
    case kst_csi
    show ?thesis
    proof (cases "0x20 \<le> u \<and> u \<le> 0x3F")
      case True
      with kst_csi assms show ?thesis
        by (auto simp: keystroke_byte_state_def stream_ok_def keystroke_add_raw_eq ebind_def)
    next
      case False
      from kst_csi have "len_used (in_st s)" by (simp add: len_used_def)
      from len_room_sint(2) [OF assms(7) this] have b: "unat (len (in_st s)) + 1 < 2 ^ 31"
        by simp
      from keystroke_byte_state_csi_end [OF assms(1) kst_csi False b, of None out] assms(6)
      obtain s' where
        r: "keystroke_byte_state K s None out u = Inr ((s', None, out), u < 0x40 \<or> u > 0x7F)"
        and s': "state (in_st s') = kst_null"
          "fifo s' = fifo s @ compound_record ks_csi (u < 0x40 \<or> u > 0x7F)
             (K \<le> unat (len (in_st s)))
             (map (raw (in_st s')) [0..<min K (unat (len (in_st s)) + 1)])"
          "steal_this s' = steal_this s" "pushed_in s' = pushed_in s" "eof_met s' = eof_met s"
        by auto
      have "fifo_ok K (compound_record ks_csi (u < 0x40 \<or> u > 0x7F) (K \<le> unat (len (in_st s)))
             (map (raw (in_st s')) [0..<min K (unat (len (in_st s)) + 1)])) []"
        by (intro compound_record_fifo_ok [OF assms(2)]) simp_all
      from fifo_ok_append [OF assms(3) this] have "fifo_ok K (fifo s') cs"
        by (simp add: s'(2))
      with r s' assms(4,6) show ?thesis
        by (auto simp: stream_ok_def)
    qed
  next
    case kst_iac_option
    with assms(4) have l: "len (in_st s) = 1" by (simp add: stream_ok_def)
    have "sint (1 + 1 :: u32) = 2" by simp
    with kst_iac_option assms p l show ?thesis
      by (auto simp: keystroke_byte_state_def Let_def stream_ok_def keystroke_put_iac_long_def
            keystroke_add_raw_eq ebind_def)
  next
    case kst_iac_sub
    then have "len_used (in_st s)" by (simp add: len_used_def)
    from len_room_sint(2) [OF assms(7) this] have b: "unat (len (in_st s)) + 1 < 2 ^ 32"
      by simp
    from unat_len_inc [OF b] have "0 < unat (len (in_st s) + 1)" by simp
    with kst_iac_sub assms show ?thesis
      by (auto simp: keystroke_byte_state_def Let_def stream_ok_def
            keystroke_add_raw_eq ebind_def)
  qed
qed


lemma keystroke_byte_ok:
  assumes "0 < K" "K < 256" "fifo_ok K (fifo s) cs" "stream_ok s" "\<not> steal_this s"
    "len_room (Suc n) s"
  shows "\<exists>s' bk. keystroke_byte K s None out u = Inr ((s', None, out), bk) \<and>
           (fifo_ok K (fifo s') cs \<or> (\<not> bk \<and> fifo_ok K (fifo s') (cs @ [u]))) \<and>
           stream_ok s' \<and> \<not> steal_this s' \<and> eof_met s' = eof_met s \<and>
           len_room (if bk then Suc n else n) s'"
proof -
  have "\<exists>s' bk. keystroke_byte K s None out u = Inr ((s', None, out), bk) \<and>
           (fifo_ok K (fifo s') cs \<or> (\<not> bk \<and> fifo_ok K (fifo s') (cs @ [u]))) \<and>
           stream_ok s' \<and> \<not> steal_this s' \<and> eof_met s' = eof_met s"
  proof (cases "u = tn_IAC \<and> state (in_st s) \<noteq> kst_iac_option \<and> \<not> iac s")
    case True
    with assms show ?thesis
      by (auto simp: keystroke_byte_def stream_ok_def)
  next
    case False
    define s1 where "s1 = (if u = tn_IAC \<and> state (in_st s) \<noteq> kst_iac_option
                           then s\<lparr> iac := False \<rparr> else s)"
    have s1: "stream_ok s1" "\<not> steal_this s1" "eof_met s1 = eof_met s" "fifo_ok K (fifo s1) cs"
      "len_room (Suc n) s1"
      using assms(3,4,5,6) by (auto simp: s1_def stream_ok_def len_room_def)
    have k: "keystroke_byte K s None out u =
        (if iac s1 then ebind (keystroke_byte_iac K s1 u) (\<lambda>(s', bk). Inr ((s', None, out), bk))
         else keystroke_byte_state K s1 None out u)"
      using False by (auto simp: keystroke_byte_def s1_def Let_def)
    show ?thesis
    proof (cases "iac s1")
      case True
      with s1(1) have "state (in_st s1) \<noteq> kst_iac_option"
        by (auto simp: stream_ok_def)
      from keystroke_byte_iac_ok [OF assms(1,2) s1(4,1) this s1(5), of u] True s1(2,3)
      show ?thesis
        unfolding k by (auto simp: ebind_def)
    next
      case False
      from keystroke_byte_state_ok [OF assms(1,2) s1(4,1) False s1(2,5), of out u] False s1(3)
      show ?thesis
        unfolding k by auto
    qed
  qed
  then obtain s' bk where
    b: "keystroke_byte K s None out u = Inr ((s', None, out), bk)" and
    r: "fifo_ok K (fifo s') cs \<or> (\<not> bk \<and> fifo_ok K (fifo s') (cs @ [u]))"
       "stream_ok s'" "\<not> steal_this s'" "eof_met s' = eof_met s"
    by blast
  from keystroke_byte_room [OF b assms(6)] b r show ?thesis
    by blast
qed

lemma keystroke_input_loop_ok:
  "0 < K \<Longrightarrow> K < 256 \<Longrightarrow> fifo_ok K (fifo s) cs \<Longrightarrow> stream_ok s \<Longrightarrow> \<not> steal_this s \<Longrightarrow>
   len_room (length bs + m) s \<Longrightarrow>
     \<exists>s' cs1. keystroke_input_loop K s None out bs = Inr (s', None, out) \<and>
          fifo_ok K (fifo s') (cs @ cs1) \<and> subseq cs1 bs \<and>
          stream_ok s' \<and> \<not> steal_this s' \<and> eof_met s' = eof_met s \<and> len_room m s'"
proof (induction K s "None :: keystroke option" out bs arbitrary: cs
         rule: keystroke_input_loop.induct)
  case (1 K stream out)
  then have "keystroke_input_loop K stream None out [] = Inr (stream, None, out) \<and>
          fifo_ok K (fifo stream) (cs @ []) \<and> subseq [] ([] :: u8 list) \<and>
          stream_ok stream \<and> \<not> steal_this stream \<and> eof_met stream = eof_met stream \<and>
          len_room m stream"
    by simp
  then show ?case by blast
next
  case (2 K stream out u rest)
  note K = "2.prems"(1,2)
  from "2.prems"(6) have "len_room (Suc (length rest + m)) stream" by simp
  from keystroke_byte_ok [OF K "2.prems"(3,4,5) this, of out u] obtain s1 bk where
    b: "keystroke_byte K stream None out u = Inr ((s1, None, out), bk)" and
    f: "fifo_ok K (fifo s1) cs \<or> (\<not> bk \<and> fifo_ok K (fifo s1) (cs @ [u]))" and
    s1: "stream_ok s1" "\<not> steal_this s1" "eof_met s1 = eof_met stream"
      "len_room (if bk then Suc (length rest + m) else length rest + m) s1"
    by blast
  have r1: "len_room (length (if bk then u # rest else rest) + m) s1"
    using s1(4) by (cases bk) simp_all
  from f show ?case
  proof
    assume f1: "fifo_ok K (fifo s1) cs"
    from "2.hyps" [OF b refl refl refl K f1 s1(1,2) r1] obtain s' cs1 where
      l: "keystroke_input_loop K s1 None out (if bk then u # rest else rest) = Inr (s', None, out)"
      and r: "fifo_ok K (fifo s') (cs @ cs1)" "subseq cs1 (if bk then u # rest else rest)"
        "stream_ok s'" "\<not> steal_this s'" "eof_met s' = eof_met s1" "len_room m s'"
      by blast
    from r(2) have "subseq cs1 (u # rest)"
      by (cases bk) (auto intro: list_emb_Cons)
    with b l r s1(3) show ?thesis by auto
  next
    assume f2: "\<not> bk \<and> fifo_ok K (fifo s1) (cs @ [u])"
    from "2.hyps" [OF b refl refl refl K f2 [THEN conjunct2] s1(1,2) r1] obtain s' cs1 where
      l: "keystroke_input_loop K s1 None out (if bk then u # rest else rest) = Inr (s', None, out)"
      and r: "fifo_ok K (fifo s') ((cs @ [u]) @ cs1)" "subseq cs1 (if bk then u # rest else rest)"
        "stream_ok s'" "\<not> steal_this s'" "eof_met s' = eof_met s1" "len_room m s'"
      by blast
    from r(2) f2 have "subseq (u # cs1) (u # rest)"
      by simp
    moreover from r(1) have "fifo_ok K (fifo s') (cs @ u # cs1)" by simp
    ultimately show ?thesis
      using b l r(3-6) s1(3) by auto
  qed
qed


lemma keystroke_put_iac_long_ok:
  assumes "stream_ok s" "len_room m s"
  shows "stream_ok (keystroke_put_iac_long K s b)" "len_room m (keystroke_put_iac_long K s b)"
    "fifo (keystroke_put_iac_long K s b) =
       fifo (keystroke_put K s ks_iac b (raw (in_st s)) (sint (len (in_st s))))"
    "eof_met (keystroke_put_iac_long K s b) = eof_met s"
    "steal_this (keystroke_put_iac_long K s b) = steal_this s"
    "iac (keystroke_put_iac_long K s b) = iac s"
proof -
  from assms(1) have "state (pushed_in s) = kst_null \<or> state (pushed_in s) = kst_esc \<or>
       state (pushed_in s) = kst_csi"
    by (simp add: stream_ok_def)
  then show "stream_ok (keystroke_put_iac_long K s b)"
    by (auto simp: stream_ok_def keystroke_put_iac_long_def Let_def)
  from assms(2) show "len_room m (keystroke_put_iac_long K s b)"
    by (simp add: len_room_def len_used_def keystroke_put_iac_long_def Let_def)
qed (simp_all add: keystroke_put_iac_long_def Let_def)

lemma keystroke_flush_step_ok:
  assumes "stream_ok s" "len_room m s"
  shows "stream_ok (s\<lparr> fifo := f, in_st := (in_st s)\<lparr> state := kst_null \<rparr> \<rparr>)"
    "len_room m (s\<lparr> fifo := f, in_st := (in_st s)\<lparr> state := kst_null \<rparr> \<rparr>)"
proof -
  from assms(1) have "state (pushed_in s) = kst_null \<or> state (pushed_in s) = kst_esc \<or>
       state (pushed_in s) = kst_csi"
    by (simp add: stream_ok_def)
  then show "stream_ok (s\<lparr> fifo := f, in_st := (in_st s)\<lparr> state := kst_null \<rparr> \<rparr>)"
    by (auto simp: stream_ok_def)
  from assms(2) show "len_room m (s\<lparr> fifo := f, in_st := (in_st s)\<lparr> state := kst_null \<rparr> \<rparr>)"
    by (simp add: len_room_def len_used_def)
qed

lemma keystroke_eof_flush_ok:
  "0 < K \<Longrightarrow> K < 256 \<Longrightarrow> fifo_ok K (fifo s) cs \<Longrightarrow> stream_ok s \<Longrightarrow> len_room m s \<Longrightarrow>
     \<exists>s'. keystroke_eof_flush K s = Inr s' \<and> fifo_ok K (fifo s') cs \<and> stream_ok s' \<and>
          state (in_st s') = kst_null \<and> iac s' = iac s \<and>
          steal_this s' = steal_this s \<and> eof_met s' = eof_met s \<and> len_room m s'"
proof (induction K s rule: keystroke_eof_flush.induct)
  case (1 K stream)
  note K = "1.prems"(1,2)
  note f = "1.prems"(3)
  have p: "fifo_ok K (fifo (keystroke_put K stream t b r n)) cs"
    if "t = ks_csi \<or> t = ks_iac \<or> (t = ks_esc \<and> n = 0)" "0 \<le> n" for t b r n
    using K f that by (intro keystroke_put_fifo_ok) auto
  have sg: "0 \<le> sint (len (in_st stream))" if "len_used (in_st stream)"
    using len_room_sint(1) [OF "1.prems"(5) that] by simp
  show ?case
  proof (cases "state (in_st stream)")
    case kst_null
    with "1.prems" show ?thesis
      by (subst keystroke_eof_flush.simps) simp
  next
    case kst_char
    with "1.prems"(4) show ?thesis by (simp add: stream_ok_def)
  next
    case kst_esc
    define s1 where "s1 = (keystroke_put_esc K stream 0 0)\<lparr> in_st :=
        (in_st (keystroke_put_esc K stream 0 0))\<lparr> state := kst_null \<rparr> \<rparr>"
    have e: "s1 = stream\<lparr> fifo := fifo (keystroke_put K stream ks_esc True (\<lambda>_. 0) 0),
                            in_st := (in_st stream)\<lparr> state := kst_null \<rparr> \<rparr>"
      by (simp add: s1_def keystroke_put_esc_def keystroke_put_def Let_def)
    have s1: "fifo_ok K (fifo s1) cs" "stream_ok s1" "len_room m s1"
      unfolding e using p [of ks_esc 0 True] keystroke_flush_step_ok [OF "1.prems"(4,5)]
      by simp_all
    have u: "keystroke_eof_flush K stream = keystroke_eof_flush K s1"
      using kst_esc by (subst keystroke_eof_flush.simps) (simp add: Let_def s1_def)
    from "1.IH"(1) [OF kst_esc refl K, folded s1_def, OF s1] show ?thesis
      unfolding u by (simp add: e)
  next
    case kst_csi
    define s1 where "s1 = (keystroke_put_csi K stream 0)\<lparr> in_st :=
        (in_st (keystroke_put_csi K stream 0))\<lparr> state := kst_null \<rparr> \<rparr>"
    have e: "s1 = stream\<lparr> fifo := fifo (keystroke_put K stream ks_csi True (raw (in_st stream))
                                        (sint (len (in_st stream)))),
                            in_st := (in_st stream)\<lparr> state := kst_null \<rparr> \<rparr>"
      by (simp add: s1_def keystroke_put_csi_def keystroke_put_def Let_def)
    from kst_csi have "0 \<le> sint (len (in_st stream))"
      by (intro sg) (simp add: len_used_def)
    then have s1: "fifo_ok K (fifo s1) cs" "stream_ok s1" "len_room m s1"
      unfolding e using p [of ks_csi _ True] keystroke_flush_step_ok [OF "1.prems"(4,5)]
      by simp_all
    have u: "keystroke_eof_flush K stream = keystroke_eof_flush K s1"
      using kst_csi by (subst keystroke_eof_flush.simps) (simp add: Let_def s1_def)
    from "1.IH"(2) [OF kst_csi refl K, folded s1_def, OF s1] show ?thesis
      unfolding u by (simp add: e)
  next
    case kst_iac_option
    note l = keystroke_put_iac_long_ok [OF "1.prems"(4,5), of K True]
    from kst_iac_option have "0 \<le> sint (len (in_st stream))"
      by (intro sg) (simp add: len_used_def)
    then have "fifo_ok K (fifo (keystroke_put_iac_long K stream True)) cs"
      unfolding l(3) by (intro p) simp_all
    note ih = "1.IH"(3) [OF kst_iac_option K this l(1,2)]
    have u: "keystroke_eof_flush K stream = keystroke_eof_flush K (keystroke_put_iac_long K stream True)"
      using kst_iac_option by (subst keystroke_eof_flush.simps) simp
    from ih show ?thesis
      unfolding u l(4,5,6) .
  next
    case kst_iac_sub
    note l = keystroke_put_iac_long_ok [OF "1.prems"(4,5), of K True]
    from kst_iac_sub have "0 \<le> sint (len (in_st stream))"
      by (intro sg) (simp add: len_used_def)
    then have "fifo_ok K (fifo (keystroke_put_iac_long K stream True)) cs"
      unfolding l(3) by (intro p) simp_all
    note ih = "1.IH"(4) [OF kst_iac_sub K this l(1,2)]
    have u: "keystroke_eof_flush K stream = keystroke_eof_flush K (keystroke_put_iac_long K stream True)"
      using kst_iac_sub by (subst keystroke_eof_flush.simps) simp
    from ih show ?thesis
      unfolding u l(4,5,6) .
  qed
qed

lemma keystroke_input_ok:
  assumes "0 < K" "K < 256" "fifo_ok K (fifo s) cs" "stream_ok s"
    "len_room (length (input_bytes [inp]) + m) s"
  shows "\<exists>s' cs1. keystroke_input K s inp None = Inr (s', None) \<and>
           fifo_ok K (fifo s') (cs @ cs1) \<and> subseq cs1 (input_bytes [inp]) \<and>
           stream_ok s' \<and> len_room m s'"
proof (cases inp)
  case (Bytes bs)
  define s4 where "s4 = s\<lparr> steal_this := False \<rparr>"
  have s4: "fifo_ok K (fifo s4) cs" "stream_ok s4" "\<not> steal_this s4"
    "len_room (length (if eof_met s then [] else bs) + m) s4"
    using assms(3,4,5) Bytes by (auto simp: s4_def stream_ok_def len_room_def)
  from keystroke_input_loop_ok [OF assms(1,2) s4, of None] obtain s' cs1 where
    "keystroke_input_loop K s4 None None (if eof_met s then [] else bs) = Inr (s', None, None)"
    "fifo_ok K (fifo s') (cs @ cs1)" "subseq cs1 (if eof_met s then [] else bs)"
    "stream_ok s'" "len_room m s'"
    by blast
  moreover from this(3) have "subseq cs1 bs"
    by (cases "eof_met s") (auto dest: list_emb_Nil2)
  ultimately show ?thesis
    using Bytes by (auto simp: keystroke_input_Bytes_None s4_def)
next
  case EOF
  define s2 where "s2 = (if iac s \<and> state (in_st s) = kst_null
      then keystroke_put_iac K (s\<lparr> eof_met := True, steal_this := False \<rparr>) 0 0
      else s\<lparr> eof_met := True, steal_this := False \<rparr>)"
  have "fifo_ok K (fifo (keystroke_put K (s\<lparr> eof_met := True, steal_this := False \<rparr>)
          ks_iac True (\<lambda>_. 0) 0)) cs"
    using assms(2,3) by (intro keystroke_put_fifo_ok) simp_all
  then have s2: "fifo_ok K (fifo s2) cs" "stream_ok s2" "len_room m s2"
    using assms(3,4,5) EOF
    by (auto simp: s2_def stream_ok_def keystroke_put_iac_def len_room_def)
  from keystroke_eof_flush_ok [OF assms(1,2) s2] obtain s3 where
    s3: "keystroke_eof_flush K s2 = Inr s3" "fifo_ok K (fifo s3) cs" "stream_ok s3"
      "len_room m s3"
    by blast
  then have "keystroke_input K s EOF None = Inr (s3\<lparr> steal_this := False \<rparr>, None) \<and>
      fifo_ok K (fifo (s3\<lparr> steal_this := False \<rparr>)) (cs @ []) \<and>
      subseq [] (input_bytes [EOF]) \<and>
      stream_ok (s3\<lparr> steal_this := False \<rparr>) \<and> len_room m (s3\<lparr> steal_this := False \<rparr>)"
    by (simp add: keystroke_input_EOF s2_def [symmetric] ebind_def stream_ok_def len_room_def)
  with EOF show ?thesis by blast
qed

lemma keystroke_feed_ok:
  assumes "0 < K" "K < 256"
  shows "fifo_ok K (fifo s) cs \<Longrightarrow> stream_ok s \<Longrightarrow> len_room (length (input_bytes ins) + m) s \<Longrightarrow>
     \<exists>s' cs1. keystroke_feed K s ins = Inr s' \<and> fifo_ok K (fifo s') (cs @ cs1) \<and>
        subseq cs1 (input_bytes ins) \<and> stream_ok s' \<and> len_room m s'"
proof (induction ins arbitrary: s cs)
  case Nil
  then have "keystroke_feed K s [] = Inr s \<and> fifo_ok K (fifo s) (cs @ []) \<and>
        subseq [] (input_bytes []) \<and> stream_ok s \<and> len_room m s"
    by simp
  then show ?case by blast
next
  case (Cons i ins)
  have e: "input_bytes (i # ins) = input_bytes [i] @ input_bytes ins"
    by (cases i) simp_all
  from Cons.prems(3) have "len_room (length (input_bytes [i]) + (length (input_bytes ins) + m)) s"
    by (simp add: e add.assoc)
  from keystroke_input_ok [OF assms Cons.prems(1,2) this] obtain s1 cs1 where
    i: "keystroke_input K s i None = Inr (s1, None)" and
    s1: "fifo_ok K (fifo s1) (cs @ cs1)" "subseq cs1 (input_bytes [i])" "stream_ok s1"
      "len_room (length (input_bytes ins) + m) s1"
    by blast
  from Cons.IH [OF s1(1,3,4)] obtain s' cs2 where
    f: "keystroke_feed K s1 ins = Inr s'" and
    s': "fifo_ok K (fifo s') ((cs @ cs1) @ cs2)" "subseq cs2 (input_bytes ins)" "stream_ok s'"
      "len_room m s'"
    by blast
  from s1(2) s'(2) have "subseq (cs1 @ cs2) (input_bytes (i # ins))"
    unfolding e by (rule list_emb_append_mono)
  moreover from s'(1) have "fifo_ok K (fifo s') (cs @ cs1 @ cs2)" by simp
  moreover from i f have "keystroke_feed K s (i # ins) = Inr s'"
    by (simp add: ebind_def)
  ultimately show ?case
    using s'(3,4) by blast
qed


section \<open>Reading a record back\<close>

lemma keystroke_get_bytes_read:
  "length xs + i = e \<Longrightarrow> e \<le> K \<Longrightarrow>
   keystroke_get_bytes K (xs @ f) b i e =
     Inr (f, \<lambda>j. if i \<le> j \<and> j < e then xs ! (j - i) else b j)"
proof (induction xs arbitrary: i b)
  case Nil
  then have "(\<lambda>j. if i \<le> j \<and> j < e then [] ! (j - i) else b j) = b"
    by (auto simp: fun_eq_iff)
  with Nil show ?case
    by (subst keystroke_get_bytes.simps) simp
next
  case (Cons x xs)
  from Cons.prems have i: "i < e" "i < K" "length xs + (i + 1) = e"
    by simp_all
  have "keystroke_get_bytes K ((x # xs) @ f) b i e =
          keystroke_get_bytes K (xs @ f) (b(i := x)) (i + 1) e"
    using i by (subst keystroke_get_bytes.simps)
               (simp add: vio_fifo_get_byte_def buf_store_def)
  also have "\<dots> = Inr (f, \<lambda>j. if i + 1 \<le> j \<and> j < e then xs ! (j - (i + 1)) else (b(i := x)) j)"
    by (rule Cons.IH [OF i(3) Cons.prems(2)])
  also have "(\<lambda>j. if i + 1 \<le> j \<and> j < e then xs ! (j - (i + 1)) else (b(i := x)) j) =
             (\<lambda>j. if i \<le> j \<and> j < e then (x # xs) ! (j - i) else b j)"
    using i by (auto simp: fun_eq_iff nth_Cons' Suc_diff_le)
  finally show ?case .
qed

lemma keystroke_get_bytes_payload:
  "length payload \<le> K \<Longrightarrow>
   keystroke_get_bytes K (payload @ rest) b 0 (length payload) =
     Inr (rest, \<lambda>j. if j < length payload then payload ! j else b j)"
  using keystroke_get_bytes_read [of payload 0 "length payload" K rest b]
  by (simp cong: if_cong)

lemma keystroke_get_ok:
  assumes "0 < K" "fifo_ok K (fifo s) cs" "fifo s \<noteq> []"
  shows "\<exists>s' e cs'. keystroke_get K s k = Inr (True, s', e) \<and> fifo_ok K (fifo s') cs' \<and>
           (if stroke_type e = ks_char then char_well_formed e \<and> cs = stroke_buf e 0 # cs'
            else cs' = cs)"
  using assms(2)
proof (cases rule: fifo_ok.cases)
  case fifo_ok_Nil
  with assms(3) show ?thesis by simp
next
  case (fifo_ok_simple b f cs0)
  with assms(1) show ?thesis
    by (simp add: keystroke_get_def vio_fifo_get_byte_def buf_store_def ebind_def
          char_well_formed_def)
next
  case (fifo_ok_compound hdr t lb payload f cs0)
  note c = fifo_ok_compound
  have g: "keystroke_get_bytes K (payload @ f) (stroke_buf k) 0 (unat lb) =
      Inr (f, \<lambda>j. if j < length payload then payload ! j else stroke_buf k j)"
    using keystroke_get_bytes_payload [OF c(7), of f "stroke_buf k"] c(6) by simp
  show ?thesis
  proof (cases t)
    case ks_null
    with c(5) show ?thesis by simp
  next
    case ks_char
    with c(8) have p: "hdr AND (kf_broken OR kf_truncated) = 0" "length payload = 1"
      by simp_all
    then obtain x where x: "payload = [x]"
      by (cases payload) auto
    from c(1,2,3,4,6,10) ks_char g p x show ?thesis
      by (simp add: keystroke_get_def vio_fifo_get_byte_def ebind_def Let_def
            char_well_formed_def keystroke_char_value.simps)
  next
    case ks_esc
    with c(9) have "length payload = 1 \<or> length payload = 0"
      by (cases payload) auto
    with c(1,2,3,4,6,10) ks_esc g show ?thesis
      by (auto simp: keystroke_get_def vio_fifo_get_byte_def ebind_def Let_def)
  next
    case ks_csi
    with c(1,2,3,4,6,7,10) g assms(1) show ?thesis
      by (auto simp: keystroke_get_def vio_fifo_get_byte_def ebind_def Let_def buf_store_def)
  next
    case ks_iac
    with c(1,2,3,4,6,10) g show ?thesis
      by (auto simp: keystroke_get_def vio_fifo_get_byte_def ebind_def Let_def)
  qed
qed

lemma keystroke_get_all_ok:
  assumes "0 < K"
  shows "fifo_ok K (fifo s) cs \<Longrightarrow>
     \<exists>ks r. keystroke_get_all K s k = Inr (ks, r) \<and>
       (\<forall>e\<in>set ks. stroke_type e = ks_char \<longrightarrow> char_well_formed e) \<and>
       char_bytes_of ks = cs"
proof (induction "length (fifo s)" arbitrary: s k cs rule: less_induct)
  case less
  show ?case
  proof (cases "fifo s = []")
    case True
    with less.prems have "cs = []"
      by (auto elim: fifo_ok.cases)
    with True show ?thesis
      by (subst keystroke_get_all.simps)
         (simp add: keystroke_get_def vio_fifo_get_byte_def char_bytes_of_def)
  next
    case False
    from keystroke_get_ok [OF assms less.prems False, of k] obtain s' e cs' where
      g: "keystroke_get K s k = Inr (True, s', e)" and f: "fifo_ok K (fifo s') cs'" and
      e: "if stroke_type e = ks_char then char_well_formed e \<and> cs = stroke_buf e 0 # cs'
          else cs' = cs"
      by blast
    from keystroke_get_shrinks [OF g] have "length (fifo s') < length (fifo s)" .
    from less.hyps [OF this f, of e] obtain ks r where
      a: "keystroke_get_all K s' e = Inr (ks, r)"
         "\<forall>e\<in>set ks. stroke_type e = ks_char \<longrightarrow> char_well_formed e"
         "char_bytes_of ks = cs'"
      by blast
    have "keystroke_get_all K s k = Inr (e # ks, r)"
      using g a(1) by (subst keystroke_get_all.simps) simp
    moreover have "\<forall>x\<in>set (e # ks). stroke_type x = ks_char \<longrightarrow> char_well_formed x"
      using a(2) e by (cases "stroke_type e = ks_char") simp_all
    moreover have "char_bytes_of (e # ks) = cs"
      using a(3) e by (cases "stroke_type e = ks_char") (simp_all add: char_bytes_of_def)
    ultimately show ?thesis by blast
  qed
qed

lemma keystroke_events_ok:
  assumes "0 < K" "K < 256" "length (input_bytes ins) < 2 ^ 31"
  shows "\<exists>ks. keystroke_events K c ins k0 = Inr ks \<and>
           (\<forall>e\<in>set ks. stroke_type e = ks_char \<longrightarrow> char_well_formed e) \<and>
           subseq (char_bytes_of ks) (input_bytes ins)"
proof -
  have "fifo_ok K (fifo (keystroke_stream_new c)) []"
    by (simp add: keystroke_stream_new_def fifo_ok_Nil)
  moreover have "len_room (length (input_bytes ins) + 0) (keystroke_stream_new c)"
    using assms(3) by (simp add: len_room_new)
  ultimately obtain s1 cs1 where
    f: "keystroke_feed K (keystroke_stream_new c) ins = Inr s1" and
    s1: "fifo_ok K (fifo s1) ([] @ cs1)" "subseq cs1 (input_bytes ins)"
    using keystroke_feed_ok [OF assms(1,2) _ stream_ok_new, of c "[]" ins 0] by blast
  from s1(1) have "fifo_ok K (fifo s1) cs1" by simp
  from keystroke_get_all_ok [OF assms(1) this, of k0] obtain ks r where
    "keystroke_get_all K s1 k0 = Inr (ks, r)"
    "\<forall>e\<in>set ks. stroke_type e = ks_char \<longrightarrow> char_well_formed e"
    "char_bytes_of ks = cs1"
    by blast
  with f s1(2) show ?thesis
    by (simp add: keystroke_events_def ebind_def)
qed






section \<open>Chunk invariance\<close>

text \<open>
  C3. For every byte sequence and every partition of it into consecutive chunks (empty
  chunks included), feeding the chunks to a fresh stream in order, one call of
  \<open>keystroke_input\<close> each and with no steal, and then signalling EOF, makes repeated
  \<open>keystroke_get\<close> return exactly the keystrokes that feeding the whole sequence as a
  single chunk and then signalling EOF does. For a sequence of fewer than \<open>2^31\<close> bytes
  and a \<open>keystroke_max_len\<close> from 1 to 255 (which the length byte of a record can hold)
  neither run fails.
\<close>

theorem chunk_invariance:
  "keystroke_events K csi_char (map Bytes chunks @ [EOF]) k0 =
   keystroke_events K csi_char [Bytes (concat chunks), EOF] k0 \<and>
   (0 < K \<and> K < 256 \<and> length (concat chunks) < 2 ^ 31 \<longrightarrow>
      (\<exists>ks. keystroke_events K csi_char [Bytes (concat chunks), EOF] k0 = Inr ks))"
proof -
  have "keystroke_events K csi_char (map Bytes chunks @ [EOF]) k0 =
        keystroke_events K csi_char [Bytes (concat chunks), EOF] k0"
    by (simp only: keystroke_events_def keystroke_feed_chunks)
  moreover have "\<exists>ks. keystroke_events K csi_char [Bytes (concat chunks), EOF] k0 = Inr ks"
    if "0 < K" "K < 256" "length (concat chunks) < 2 ^ 31"
  proof -
    from that(3) have "length (input_bytes [Bytes (concat chunks), EOF]) < 2 ^ 31"
      by simp
    from keystroke_events_ok [OF that(1,2) this, of csi_char k0] show ?thesis
      by blast
  qed
  ultimately show ?thesis by blast
qed

theorem chunk_invariance_witness:
  "(0 :: nat) < 8 \<and> (8 :: nat) < 256 \<and>
   length (concat [[0x41, 0x1B], [], [0x5B, 0x33], [0x7E, 0xFF :: u8]]) < 2 ^ 31 \<and>
   keystroke_events 8 0 (map Bytes [[0x41, 0x1B], [], [0x5B, 0x33], [0x7E, 0xFF]] @ [EOF])
     (stroke_filled 0) =
   keystroke_events 8 0 [Bytes (concat [[0x41, 0x1B], [], [0x5B, 0x33], [0x7E, 0xFF]]), EOF]
     (stroke_filled 0) \<and>
   (\<exists>ks. keystroke_events 8 0 [Bytes (concat [[0x41, 0x1B], [], [0x5B, 0x33], [0x7E, 0xFF]]), EOF]
            (stroke_filled 0) = Inr ks \<and>
      map stroke_view ks = [(ks_char, 0x41, 0, 1, [0x41]), (ks_csi, 0x7E, 0, 1, [0x33]),
                            (ks_iac, 0, kf_broken, 0, [])])"
proof -
  have e: "\<exists>ks. keystroke_events 8 0
              [Bytes (concat [[0x41, 0x1B], [], [0x5B, 0x33], [0x7E, 0xFF]]), EOF]
              (stroke_filled 0) = Inr ks \<and>
      map stroke_view ks = [(ks_char, 0x41, 0, 1, [0x41]), (ks_csi, 0x7E, 0, 1, [0x33]),
                            (ks_iac, 0, kf_broken, 0, [])]"
    apply (simp add: keystroke_events_def input_defs keystroke_eof_flush.simps)
    apply (simp add: get_defs stroke_view_def upt_rec)
    done
  from chunk_invariance [of 8 0 "[[0x41, 0x1B], [], [0x5B, 0x33], [0x7E, 0xFF]]" "stroke_filled 0"]
  have "keystroke_events 8 0 (map Bytes [[0x41, 0x1B], [], [0x5B, 0x33], [0x7E, 0xFF]] @ [EOF])
     (stroke_filled 0) =
   keystroke_events 8 0 [Bytes (concat [[0x41, 0x1B], [], [0x5B, 0x33], [0x7E, 0xFF]]), EOF]
     (stroke_filled 0)"
    by (rule conjunct1)
  with e show ?thesis by simp
qed

end
